theory Spec2Isabelle
  imports Complex_Main "HOL-Library.Signed_Division" "HOL-Library.Multiset"
begin

text \<open>
  A shallow embedding of \<open>solution.js\<close>, which recovers the constant term of a polynomial
  from points given in a JSON document: the radix decoder \<open>parseBigIntFromBase\<close>, the
  greatest common divisor \<open>bigintGcd\<close>, the Lagrange evaluator \<open>computeConstantC\<close> and the
  main script from the parsed document to the printed line.  Reading the file and
  \<open>JSON.parse\<close> are outside the embedding; its input is the parsed document.
\<close>

section \<open>Errors\<close>

text \<open>
  Every exception the script can raise is caught by the single \<open>try/catch\<close> of the main
  script, which prints the message on the error stream and exits with status 2.  The model
  keeps one constructor per throw site (the two explicit \<open>throw\<close>s of the decoder, the two
  of the main script) and per kind of run-time exception of the JavaScript operations used.
  The source has no error kinds of its own.  The two throws of the decoder are its
  invalid-digit error, the division by zero is what a degenerate set of points ends in,
  \<open>NotEnoughPoints\<close> is the error for too few points and \<open>MissingKeys\<close> the one for a
  document without \<open>keys.k\<close>.
\<close>

datatype error =
    InvalidCharacter      \<comment> \<open>line 21: \<open>Invalid character ... in value\<close>\<close>
  | DigitGeBase           \<comment> \<open>line 23: \<open>Digit ... >= base ...\<close>\<close>
  | MissingKeys           \<comment> \<open>line 103: \<open>JSON must contain "keys" with "k"\<close>\<close>
  | NotEnoughPoints       \<comment> \<open>line 123: \<open>Not enough points\<close>\<close>
  | DivisionByZero        \<comment> \<open>\<open>RangeError: Division by zero\<close> of BigInt \<open>/\<close> and \<open>%\<close>\<close>
  | BigIntRangeError      \<comment> \<open>\<open>RangeError\<close> of \<open>BigInt(n)\<close> for a number that is not an integer\<close>
  | BigIntSyntaxError     \<comment> \<open>\<open>SyntaxError\<close> of \<open>BigInt(s)\<close> for a string that is no integer literal\<close>
  | TypeError             \<comment> \<open>property read on \<open>null\<close> or \<open>undefined\<close>\<close>

section \<open>BigInt arithmetic\<close>

text \<open>
  BigInt values are unbounded integers.  Division truncates towards zero and the remainder
  takes the sign of the dividend; both throw on a zero divisor.
\<close>

definition bigint_div :: "int \<Rightarrow> int \<Rightarrow> error + int" where
  "bigint_div a b = (if b = 0 then Inl DivisionByZero else Inr (a sdiv b))"

definition bigint_mod :: "int \<Rightarrow> int \<Rightarrow> error + int" where
  "bigint_mod a b = (if b = 0 then Inl DivisionByZero else Inr (a smod b))"

definition absBigInt :: "int \<Rightarrow> int" where
  "absBigInt x = (if x < 0 then - x else x)"

text \<open>
  The loop of \<open>bigintGcd\<close>.  The remainder is only taken under the guard \<open>b !== 0n\<close>, so it
  never throws; the loop is entered with non-negative arguments.
\<close>

function gcd_loop :: "int \<Rightarrow> int \<Rightarrow> int" where
  "gcd_loop a b = (if b \<noteq> 0 then gcd_loop b (a smod b) else a)"
  by pat_completeness auto
termination
proof (relation "measure (\<lambda>(a, b). nat \<bar>b\<bar>)", goal_cases)
  case 1
  show ?case by simp
next
  case (2 a b)
  have "a smod b \<in> {- \<bar>b\<bar> + 1..\<bar>b\<bar> - 1}"
    by (rule smod_int_range) (use 2 in simp)
  then show ?case
    by auto
qed

declare gcd_loop.simps [simp del]

definition bigintGcd :: "int \<Rightarrow> int \<Rightarrow> int" where
  "bigintGcd a b = gcd_loop (absBigInt a) (absBigInt b)"

section \<open>The Lagrange evaluator\<close>

record point =
  px :: int
  py :: int

record fraction =
  num :: int
  den :: int

text \<open>Body of the inner loop over \<open>j\<close> (lines 62 to 66); the pair is \<open>(numer, denom)\<close>.\<close>

definition inner_body :: "point list \<Rightarrow> nat \<Rightarrow> int \<Rightarrow> nat \<Rightarrow> int \<times> int \<Rightarrow> int \<times> int" where
  "inner_body points i xi j nd =
     (if j = i then nd
      else (fst nd * - px (points ! j), snd nd * (xi - px (points ! j))))"

definition basis :: "point list \<Rightarrow> nat \<Rightarrow> int \<times> int" where
  "basis points i =
     (let nd = fold (inner_body points i (px (points ! i))) [0..<length points] (1, 1)
      in if snd nd < 0 then (- fst nd, - snd nd) else nd)"

text \<open>
  Body of the outer loop (lines 55 to 85) on the running total \<open>(totalNum, totalDen)\<close>.
  The two divisions by \<open>g\<close> are the only operations that can throw.
\<close>

definition outer_body :: "point list \<Rightarrow> nat \<Rightarrow> int \<times> int \<Rightarrow> error + int \<times> int" where
  "outer_body points i tot =
     (let totalNum = fst tot; totalDen = snd tot;
          yi = py (points ! i);
          nd = basis points i;
          termNum = yi * fst nd;
          termDen = snd nd;
          newNum = totalNum * termDen + termNum * totalDen;
          newDen = totalDen * termDen;
          g = bigintGcd (if newNum < 0 then - newNum else newNum) newDen
      in case bigint_div newNum g of
           Inl e \<Rightarrow> Inl e
         | Inr tn \<Rightarrow> (case bigint_div newDen g of
                        Inl e \<Rightarrow> Inl e
                      | Inr td \<Rightarrow> Inr (tn, td)))"

fun outer_loop :: "point list \<Rightarrow> nat list \<Rightarrow> int \<times> int \<Rightarrow> error + int \<times> int" where
  "outer_loop points [] tot = Inr tot"
| "outer_loop points (i # is) tot =
     (case outer_body points i tot of
        Inl e \<Rightarrow> Inl e
      | Inr tot' \<Rightarrow> outer_loop points is tot')"

definition computeConstantC :: "point list \<Rightarrow> error + fraction" where
  "computeConstantC points =
     (case outer_loop points [0..<length points] (0, 1) of
        Inl e \<Rightarrow> Inl e
      | Inr tot \<Rightarrow>
          (let totalNum = fst tot; totalDen = snd tot;
               finalG = bigintGcd (if totalNum < 0 then - totalNum else totalNum) totalDen
           in case bigint_div totalNum finalG of
                Inl e \<Rightarrow> Inl e
              | Inr n \<Rightarrow> (case bigint_div totalDen finalG of
                             Inl e \<Rightarrow> Inl e
                           | Inr d \<Rightarrow> Inr \<lparr>num = n, den = d\<rparr>)))"

section \<open>JavaScript values and coercions\<close>

text \<open>
  The values \<open>JSON.parse\<close> produces.  A string is a list of characters, standing for ASCII
  text.  A number is given by its integer value: the embedding covers documents whose
  numbers are integers that binary64 represents exactly and prints without an exponent.
  An object is the list of its own properties in creation order, with pairwise different
  names.  \<open>undefined\<close>, the value of a missing property, is \<open>None\<close> of \<open>json option\<close>.
\<close>

datatype json =
    JNull
  | JBool bool
  | JNum int
  | JStr string
  | JArr "json list"
  | JObj "(string \<times> json) list"

text \<open>
  The result of \<open>Number(v)\<close>: not a number, an infinity, or a finite number with its exact
  value (the rounding of binary64 is not modelled).
\<close>

datatype jsnum = NaN | PosInf | NegInf | Fin rat

text \<open>\<open>charCodeAt(0)\<close> of a one-character string.\<close>

definition charCode :: "char \<Rightarrow> int" where
  "charCode ch = of_char ch"

text \<open>\<open>trim\<close> removes white space and line terminators (here: the ASCII ones) at both ends.\<close>

definition is_ws :: "char \<Rightarrow> bool" where
  "is_ws ch = (charCode ch \<in> {9, 10, 11, 12, 13, 32})"

definition js_trim :: "string \<Rightarrow> string" where
  "js_trim s = rev (dropWhile is_ws (rev (dropWhile is_ws s)))"

definition lower_char :: "char \<Rightarrow> char" where
  "lower_char ch = (if 65 \<le> charCode ch \<and> charCode ch \<le> 90 then char_of (charCode ch + 32) else ch)"

definition toLowerCase :: "string \<Rightarrow> string" where
  "toLowerCase s = map lower_char s"

text \<open>
  The digit string of a non-negative integer \<open>n\<close> in radix \<open>b\<close> from 2 to 36, most significant
  digit first, with the digits \<open>0\<close> to \<open>9\<close> and \<open>a\<close> to \<open>z\<close> and no leading zero (\<open>0\<close> for zero): the
  canonical encoding, and what \<open>toString(b)\<close> returns.
\<close>

definition digit_char :: "int \<Rightarrow> char" where
  "digit_char d = (if d < 10 then char_of (48 + d) else char_of (87 + d))"

function to_radix :: "int \<Rightarrow> int \<Rightarrow> string" where
  "to_radix b n =
     (if b < 2 \<or> n < b then [digit_char n]
      else to_radix b (n div b) @ [digit_char (n mod b)])"
  by pat_completeness auto
termination
proof (relation "measure (\<lambda>(b, n). nat n)", goal_cases)
  case 1
  show ?case by simp
next
  case (2 b n)
  then have n: "0 < n" and b: "1 < b" by auto
  then have "n div b < n" by (rule int_div_less_self)
  with n show ?case by simp
qed

declare to_radix.simps [simp del]

text \<open>\<open>toString()\<close> of a BigInt, and of a number that is an integer.\<close>

definition bigint_toString :: "int \<Rightarrow> string" where
  "bigint_toString i = (if i < 0 then CHR ''-'' # to_radix 10 (- i) else to_radix 10 i)"

text \<open>The values for which \<open>!v\<close> is false.\<close>

definition truthy :: "json \<Rightarrow> bool" where
  "truthy v =
     (case v of
        JNull \<Rightarrow> False
      | JBool b \<Rightarrow> b
      | JNum n \<Rightarrow> n \<noteq> 0
      | JStr s \<Rightarrow> s \<noteq> []
      | JArr vs \<Rightarrow> True
      | JObj kvs \<Rightarrow> True)"

text \<open>
  \<open>String(v)\<close>.  An array is the strings of its elements joined by commas, with the empty
  string for \<open>null\<close>.
\<close>

fun join_comma :: "string list \<Rightarrow> string" where
  "join_comma [] = []"
| "join_comma [s] = s"
| "join_comma (s # t # ss) = s @ CHR '','' # join_comma (t # ss)"

fun js_String :: "json \<Rightarrow> string" where
  "js_String JNull = ''null''"
| "js_String (JBool b) = (if b then ''true'' else ''false'')"
| "js_String (JNum n) = bigint_toString n"
| "js_String (JStr s) = s"
| "js_String (JArr vs) = join_comma (map (\<lambda>v. if v = JNull then [] else js_String v) vs)"
| "js_String (JObj kvs) = ''[object Object]''"

subsection \<open>Numeric literals in strings\<close>

definition is_dec_digit :: "char \<Rightarrow> bool" where
  "is_dec_digit ch = (48 \<le> charCode ch \<and> charCode ch \<le> 57)"

text \<open>Value of a digit of a literal in radix 2, 8, 10 or 16 (both letter cases), if it is one.\<close>

definition literal_digit :: "int \<Rightarrow> char \<Rightarrow> int option" where
  "literal_digit radix ch =
     (let c = charCode ch;
          d = (if 48 \<le> c \<and> c \<le> 57 then Some (c - 48)
               else if 97 \<le> c \<and> c \<le> 102 then Some (c - 87)
               else if 65 \<le> c \<and> c \<le> 70 then Some (c - 55)
               else None)
      in case d of None \<Rightarrow> None | Some v \<Rightarrow> if v < radix then Some v else None)"

fun literal_digits :: "int \<Rightarrow> string \<Rightarrow> int \<Rightarrow> int option" where
  "literal_digits radix [] acc = Some acc"
| "literal_digits radix (ch # s) acc =
     (case literal_digit radix ch of
        None \<Rightarrow> None
      | Some d \<Rightarrow> literal_digits radix s (acc * radix + d))"

text \<open>A non-empty digit sequence in the given radix.\<close>

definition digits_literal :: "int \<Rightarrow> string \<Rightarrow> int option" where
  "digits_literal radix s = (if s = [] then None else literal_digits radix s 0)"

text \<open>\<open>0x\<close>, \<open>0o\<close> and \<open>0b\<close> literals; they take no sign.\<close>

definition nondecimal_literal :: "string \<Rightarrow> int option" where
  "nondecimal_literal s =
     (case s of
        z # p # ds \<Rightarrow>
          if z \<noteq> CHR ''0'' then None
          else if p = CHR ''x'' \<or> p = CHR ''X'' then digits_literal 16 ds
          else if p = CHR ''o'' \<or> p = CHR ''O'' then digits_literal 8 ds
          else if p = CHR ''b'' \<or> p = CHR ''B'' then digits_literal 2 ds
          else None
      | _ \<Rightarrow> None)"

definition split_sign :: "string \<Rightarrow> bool \<times> string" where
  "split_sign s =
     (case s of
        c # r \<Rightarrow> if c = CHR ''-'' then (True, r) else if c = CHR ''+'' then (False, r) else (False, s)
      | [] \<Rightarrow> (False, s))"

text \<open>
  \<open>BigInt(s)\<close> for a string: white space is trimmed, the empty string is zero, and the
  rest must be a decimal integer with an optional sign or an unsigned literal in radix
  2, 8 or 16.
\<close>

definition bigint_of_string :: "string \<Rightarrow> error + int" where
  "bigint_of_string s =
     (let t = js_trim s in
      if t = [] then Inr 0
      else case nondecimal_literal t of
        Some n \<Rightarrow> Inr n
      | None \<Rightarrow>
          (let (neg, ds) = split_sign t in
           case digits_literal 10 ds of
             None \<Rightarrow> Inl BigIntSyntaxError
           | Some n \<Rightarrow> Inr (if neg then - n else n)))"

text \<open>
  The exponent part of a decimal literal: empty, or \<open>e\<close>/\<open>E\<close>, an optional sign and a
  non-empty digit sequence.
\<close>

definition exponent_part :: "string \<Rightarrow> int option" where
  "exponent_part s =
     (case s of
        [] \<Rightarrow> Some 0
      | c # r \<Rightarrow>
          if c = CHR ''e'' \<or> c = CHR ''E'' then
            (let (neg, ds) = split_sign r in
             case digits_literal 10 ds of
               None \<Rightarrow> None
             | Some n \<Rightarrow> Some (if neg then - n else n))
          else None)"

text \<open>
  An unsigned decimal literal: integer digits, an optional point with fraction digits, an
  optional exponent, with at least one digit before the exponent.  The value is exact.
\<close>

definition unsigned_decimal :: "string \<Rightarrow> rat option" where
  "unsigned_decimal s =
     (let ip = takeWhile is_dec_digit s;
          r1 = dropWhile is_dec_digit s;
          fp = (case r1 of c # r \<Rightarrow> if c = CHR ''.'' then takeWhile is_dec_digit r else [] | [] \<Rightarrow> []);
          r2 = (case r1 of c # r \<Rightarrow> if c = CHR ''.'' then dropWhile is_dec_digit r else r1 | [] \<Rightarrow> [])
      in if ip = [] \<and> fp = [] then None
         else case (literal_digits 10 (ip @ fp) 0, exponent_part r2) of
           (Some m, Some e) \<Rightarrow> Some (of_int m * 10 powi (e - int (length fp)))
         | _ \<Rightarrow> None)"

text \<open>\<open>Number(s)\<close> for a string.\<close>

definition string_to_number :: "string \<Rightarrow> jsnum" where
  "string_to_number s =
     (let t = js_trim s in
      if t = [] then Fin 0
      else case nondecimal_literal t of
        Some n \<Rightarrow> Fin (of_int n)
      | None \<Rightarrow>
          (let (neg, u) = split_sign t in
           if u = ''Infinity'' then (if neg then NegInf else PosInf)
           else case unsigned_decimal u of
             None \<Rightarrow> NaN
           | Some q \<Rightarrow> Fin (if neg then - q else q)))"

text \<open>\<open>Number(v)\<close>; \<open>None\<close> is \<open>undefined\<close>.  Arrays and objects go through their string.\<close>

definition js_Number :: "json option \<Rightarrow> jsnum" where
  "js_Number v =
     (case v of
        None \<Rightarrow> NaN
      | Some JNull \<Rightarrow> Fin 0
      | Some (JBool b) \<Rightarrow> Fin (if b then 1 else 0)
      | Some (JNum n) \<Rightarrow> Fin (of_int n)
      | Some (JStr s) \<Rightarrow> string_to_number s
      | Some w \<Rightarrow> string_to_number (js_String w))"

text \<open>\<open>BigInt(n)\<close> for a number: only integers convert.\<close>

definition bigint_of_number :: "jsnum \<Rightarrow> error + int" where
  "bigint_of_number n =
     (case n of
        Fin q \<Rightarrow> if of_int \<lfloor>q\<rfloor> = q then Inr \<lfloor>q\<rfloor> else Inl BigIntRangeError
      | _ \<Rightarrow> Inl BigIntRangeError)"


section \<open>The radix decoder\<close>

text \<open>The loop of line 15: drop leading \<open>0\<close> characters while more than one character is left.\<close>

fun strip_zeros :: "string \<Rightarrow> string" where
  "strip_zeros (c # d # s) = (if c = CHR ''0'' then strip_zeros (d # s) else c # d # s)"
| "strip_zeros s = s"

text \<open>The loop of lines 17 to 25 over the characters, with the accumulated \<open>value\<close>.\<close>

fun digit_loop :: "int \<Rightarrow> string \<Rightarrow> int \<Rightarrow> error + int" where
  "digit_loop base [] val = Inr val"
| "digit_loop base (ch # s) val =
     (if 48 \<le> charCode ch \<and> charCode ch \<le> 57 then
        (let digit = charCode ch - 48
         in if digit \<ge> base then Inl DigitGeBase
            else digit_loop base s (val * base + digit))
      else if 97 \<le> charCode ch \<and> charCode ch \<le> 122 then
        (let digit = charCode ch - 97 + 10
         in if digit \<ge> base then Inl DigitGeBase
            else digit_loop base s (val * base + digit))
      else Inl InvalidCharacter)"

text \<open>
  Both arguments are JavaScript values; \<open>None\<close> is \<open>undefined\<close>, the value of a field that
  the entry does not have.  A falsy \<open>str\<close> returns zero before the base is looked at.
\<close>

definition parseBigIntFromBase :: "json option \<Rightarrow> json option \<Rightarrow> error + int" where
  "parseBigIntFromBase str baseNum =
     (case str of
        None \<Rightarrow> Inr 0
      | Some v \<Rightarrow>
          if \<not> truthy v then Inr 0
          else case bigint_of_number (js_Number baseNum) of
            Inl e \<Rightarrow> Inl e
          | Inr base \<Rightarrow> digit_loop base (strip_zeros (toLowerCase (js_trim (js_String v)))) 0)"

section \<open>The main script\<close>

text \<open>
  An object of the parsed document is the list of its own properties in creation order,
  with pairwise different names.  \<open>Object.keys\<close> lists the names that are array indices
  first, in ascending numeric order, and then the others in creation order.
\<close>

definition is_array_index :: "string \<Rightarrow> bool" where
  "is_array_index s =
     (case digits_literal 10 s of
        None \<Rightarrow> False
      | Some n \<Rightarrow> to_radix 10 n = s \<and> n < 4294967295)"

definition index_value :: "string \<Rightarrow> int" where
  "index_value s = (case digits_literal 10 s of None \<Rightarrow> 0 | Some n \<Rightarrow> n)"

definition object_keys :: "(string \<times> json) list \<Rightarrow> string list" where
  "object_keys data =
     sort_key index_value (filter is_array_index (map fst data)) @
     filter (\<lambda>key. \<not> is_array_index key) (map fst data)"

text \<open>
  Reading the property \<open>name\<close> of a value that is neither \<open>null\<close> nor \<open>undefined\<close>, for the
  names the script reads (\<open>keys\<close>, \<open>k\<close>, \<open>base\<close>, \<open>value\<close>).  Only an object can have them as
  own properties; of the prototypes only that of arrays defines one of them, the method
  \<open>keys\<close>, which the script only tests for truth and reads \<open>k\<close> from.
\<close>

definition get_field :: "json \<Rightarrow> string \<Rightarrow> json option" where
  "get_field v name = (case v of JObj kvs \<Rightarrow> map_of kvs name | _ \<Rightarrow> None)"

record entry =
  keyStr :: string
  xBig :: int
  base :: "json option"
  val :: "json option"

text \<open>The callback of \<open>map\<close> at lines 111 to 116.\<close>

definition make_entry :: "(string \<times> json) list \<Rightarrow> string \<Rightarrow> error + entry" where
  "make_entry data key =
     (case bigint_of_string key of
        Inl e \<Rightarrow> Inl e
      | Inr x \<Rightarrow>
          (case map_of data key of
             None \<Rightarrow> Inl TypeError
           | Some v \<Rightarrow>
               if v = JNull then Inl TypeError
               else Inr \<lparr>keyStr = key, xBig = x, base = get_field v ''base'', val = get_field v ''value''\<rparr>))"

text \<open>\<open>Array.prototype.map\<close> with a callback that may throw: the first exception ends it.\<close>

fun map_throwing :: "('a \<Rightarrow> error + 'b) \<Rightarrow> 'a list \<Rightarrow> error + 'b list" where
  "map_throwing f [] = Inr []"
| "map_throwing f (x # xs) =
     (case f x of
        Inl e \<Rightarrow> Inl e
      | Inr y \<Rightarrow> (case map_throwing f xs of Inl e \<Rightarrow> Inl e | Inr ys \<Rightarrow> Inr (y # ys)))"

text \<open>\<open>n < k\<close> for an array length \<open>n\<close> and a number \<open>k\<close>.\<close>

definition length_less :: "nat \<Rightarrow> jsnum \<Rightarrow> bool" where
  "length_less n k =
     (case k of NaN \<Rightarrow> False | PosInf \<Rightarrow> True | NegInf \<Rightarrow> False | Fin q \<Rightarrow> of_nat n < q)"

text \<open>
  \<open>xs.slice(0, k)\<close>: the end is truncated towards zero, \<open>NaN\<close> is zero, and a negative end
  counts from the end of the array.
\<close>

definition slice0 :: "'a list \<Rightarrow> jsnum \<Rightarrow> 'a list" where
  "slice0 xs k =
     (case k of
        NaN \<Rightarrow> []
      | PosInf \<Rightarrow> xs
      | NegInf \<Rightarrow> []
      | Fin q \<Rightarrow>
          (let len = int (length xs);
               relativeEnd = (if q < 0 then - \<lfloor>- q\<rfloor> else \<lfloor>q\<rfloor>);
               final = (if relativeEnd < 0 then max (len + relativeEnd) 0 else min relativeEnd len)
           in take (nat final) xs))"

text \<open>Lines 102 to 127: the entries the interpolation uses.\<close>

definition select_entries :: "json \<Rightarrow> error + entry list" where
  "select_entries doc =
     (case doc of
        JNull \<Rightarrow> Inl TypeError
      | JObj data \<Rightarrow>
          (case map_of data ''keys'' of
             None \<Rightarrow> Inl MissingKeys
           | Some keys \<Rightarrow>
               if \<not> truthy keys then Inl MissingKeys
               else case get_field keys ''k'' of
                 None \<Rightarrow> Inl MissingKeys
               | Some kv \<Rightarrow>
                   (let k = js_Number (Some kv)
                    in case map_throwing (make_entry data)
                              (filter (\<lambda>key. key \<noteq> ''keys'') (object_keys data)) of
                         Inl e \<Rightarrow> Inl e
                       | Inr entries \<Rightarrow>
                           (let sorted = sort_key xBig entries
                            in if length_less (length sorted) k then Inl NotEnoughPoints
                               else Inr (slice0 sorted k))))
      | _ \<Rightarrow> Inl MissingKeys)"

text \<open>Lines 130 to 133: the callback, and the \<open>map\<close> over the selected entries.\<close>

definition entry_point :: "entry \<Rightarrow> error + point" where
  "entry_point e =
     (case parseBigIntFromBase (val e) (base e) of
        Inl err \<Rightarrow> Inl err
      | Inr yBig \<Rightarrow> Inr \<lparr>px = xBig e, py = yBig\<rparr>)"

definition form_points :: "entry list \<Rightarrow> error + point list" where
  "form_points entries = map_throwing entry_point entries"

text \<open>Lines 138 to 146: the line printed on standard output.\<close>

definition format_result :: "fraction \<Rightarrow> error + string" where
  "format_result f =
     (if den f = 1 then Inr (bigint_toString (num f))
      else case bigint_mod (num f) (den f) of
        Inl e \<Rightarrow> Inl e
      | Inr r \<Rightarrow>
          if r = 0 then
            (case bigint_div (num f) (den f) of
               Inl e \<Rightarrow> Inl e
             | Inr q \<Rightarrow> Inr (bigint_toString q))
          else Inr (bigint_toString (num f) @ ''/'' @ bigint_toString (den f)))"

text \<open>
  The whole \<open>try\<close> block on the parsed document: \<open>Inr\<close> is the printed line, \<open>Inl\<close> the
  exception that reaches the \<open>catch\<close>, after which nothing is printed on standard output.
\<close>

definition solve :: "json \<Rightarrow> error + string" where
  "solve doc =
     (case select_entries doc of
        Inl e \<Rightarrow> Inl e
      | Inr entries \<Rightarrow>
          (case form_points entries of
             Inl e \<Rightarrow> Inl e
           | Inr points \<Rightarrow>
               (case computeConstantC points of
                  Inl e \<Rightarrow> Inl e
                | Inr f \<Rightarrow> format_result f)))"

text \<open>What the run leaves on standard output.\<close>

definition stdout_of :: "error + string \<Rightarrow> string option" where
  "stdout_of r = (case r of Inl e \<Rightarrow> None | Inr s \<Rightarrow> Some s)"

section \<open>Notions of the statements and proofs\<close>

text \<open>
  The two products that the inner loop computes for the point \<open>i\<close>, and the sum of the
  first \<open>n\<close> Lagrange terms as a real number.
\<close>

definition lag_numer :: "point list \<Rightarrow> nat \<Rightarrow> int" where
  "lag_numer ps i = (\<Prod>j \<in> {..<length ps} - {i}. - px (ps ! j))"

definition lag_denom :: "point list \<Rightarrow> nat \<Rightarrow> int" where
  "lag_denom ps i = (\<Prod>j \<in> {..<length ps} - {i}. px (ps ! i) - px (ps ! j))"

definition lagrange_sum :: "point list \<Rightarrow> nat \<Rightarrow> real" where
  "lagrange_sum ps n =
     (\<Sum>i<n. of_int (py (ps ! i)) * of_int (lag_numer ps i) / of_int (lag_denom ps i))"

text \<open>
  The value at \<open>x\<close> of the polynomial with the integer coefficients \<open>cs\<close>, lowest degree
  first; its degree is less than \<open>length cs\<close>.
\<close>

fun poly_eval :: "int list \<Rightarrow> int \<Rightarrow> int" where
  "poly_eval [] x = 0"
| "poly_eval (c # cs) x = c + x * poly_eval cs x"

text \<open>Real functions that are polynomials of degree at most \<open>n\<close>.\<close>

definition polyfun :: "nat \<Rightarrow> (real \<Rightarrow> real) \<Rightarrow> bool" where
  "polyfun n f \<longleftrightarrow> (\<exists>c. \<forall>z. f z = (\<Sum>i\<le>n. c i * z ^ i))"

text \<open>The interpolating polynomial in Lagrange form, over the reals.\<close>

definition lagrange_poly :: "point list \<Rightarrow> real \<Rightarrow> real" where
  "lagrange_poly ps z =
     (\<Sum>i<length ps. of_int (py (ps ! i)) / of_int (lag_denom ps i) *
        (\<Prod>j \<in> {..<length ps} - {i}. z - of_int (px (ps ! j))))"

text \<open>The digit value of a character of a digit string: \<open>0\<close> to \<open>9\<close> and \<open>a\<close> to \<open>z\<close>.\<close>

definition digit_value :: "char \<Rightarrow> int option" where
  "digit_value ch =
     (if 48 \<le> charCode ch \<and> charCode ch \<le> 57 then Some (charCode ch - 48)
      else if 97 \<le> charCode ch \<and> charCode ch \<le> 122 then Some (charCode ch - 87)
      else None)"

text \<open>A character that is no digit character, or whose digit value is not below the radix.\<close>

definition bad_char :: "int \<Rightarrow> char \<Rightarrow> bool" where
  "bad_char r ch = (case digit_value ch of None \<Rightarrow> True | Some d \<Rightarrow> d \<ge> r)"

text \<open>The two throws of the decoder, which together are the invalid-digit error.\<close>

definition is_InvalidDigit :: "error + int \<Rightarrow> bool" where
  "is_InvalidDigit res = (res = Inl InvalidCharacter \<or> res = Inl DigitGeBase)"

text \<open>The x-coordinates of the entries of a document: its names other than \<open>keys\<close> that convert.\<close>

definition x_values :: "(string \<times> json) list \<Rightarrow> int list" where
  "x_values data =
     concat (map (\<lambda>key. case bigint_of_string key of Inl e \<Rightarrow> [] | Inr x \<Rightarrow> [x])
       (filter (\<lambda>key. key \<noteq> ''keys'') (map fst data)))"

section \<open>Arithmetic of the evaluator\<close>

lemma sdiv_exact: "(g::int) dvd a \<Longrightarrow> a sdiv g = a div g"
  by (simp add: signed_divide_int_eq_divide_int)

lemma smod_nonneg: "0 \<le> a \<Longrightarrow> 0 < b \<Longrightarrow> a smod b = a mod (b::int)"
  by (simp add: signed_modulo_int_def sgn_if)

lemma gcd_loop_eq: "0 \<le> a \<Longrightarrow> 0 \<le> b \<Longrightarrow> gcd_loop a b = gcd a b"
proof (induction a b rule: gcd_loop.induct)
  case (1 a b)
  show ?case
  proof (cases "b = 0")
    case True
    then show ?thesis using "1.prems" by (simp add: gcd_loop.simps)
  next
    case False
    then have b: "0 < b" using "1.prems" by simp
    have m: "a smod b = a mod b"
      using "1.prems" b by (simp add: smod_nonneg)
    have "gcd_loop a b = gcd_loop b (a smod b)"
      using False by (subst gcd_loop.simps) simp
    also have "\<dots> = gcd b (a smod b)"
      using "1.IH" [OF False] b m by simp
    also have "\<dots> = gcd a b"
      using gcd_red_int [of a b] by (simp add: m)
    finally show ?thesis .
  qed
qed

lemma bigintGcd_eq: "bigintGcd a b = gcd a b"
  by (simp add: bigintGcd_def absBigInt_def gcd_loop_eq)

lemma bigintGcd_abs: "bigintGcd (if a < 0 then - a else a) b = gcd a b"
  by (simp add: bigintGcd_eq)

lemma inner_fold:
  "fold (inner_body ps i xi) [0..<n] (1, 1) =
     (\<Prod>j \<in> {..<n} - {i}. - px (ps ! j), \<Prod>j \<in> {..<n} - {i}. xi - px (ps ! j))"
proof (induction n)
  case 0
  show ?case by simp
next
  case (Suc n)
  show ?case
  proof (cases "n = i")
    case True
    then have "{..<Suc n} - {i} = {..<n} - {i}" by auto
    with Suc True show ?thesis by (simp add: inner_body_def)
  next
    case False
    then have "{..<Suc n} - {i} = insert n ({..<n} - {i})" by auto
    with Suc False show ?thesis by (simp add: inner_body_def mult.commute)
  qed
qed

lemma basis_eq:
  "basis ps i =
     (if lag_denom ps i < 0 then (- lag_numer ps i, - lag_denom ps i)
      else (lag_numer ps i, lag_denom ps i))"
  by (simp add: basis_def inner_fold lag_numer_def lag_denom_def)

lemma lag_denom_nz:
  assumes "distinct (map px ps)" "i < length ps"
  shows "lag_denom ps i \<noteq> 0"
proof -
  have "px (ps ! i) \<noteq> px (ps ! j)" if "j < length ps" "j \<noteq> i" for j
    using assms that nth_eq_iff_index_eq [of "map px ps" i j] by simp
  then show ?thesis
    by (simp add: lag_denom_def)
qed

lemma lag_denom_zero:
  assumes "j < length ps" "j \<noteq> i" "px (ps ! i) = px (ps ! j)"
  shows "lag_denom ps i = 0"
  using assms by (auto simp: lag_denom_def intro!: bexI [of _ j])

lemma outer_body_cases:
  "outer_body ps i (tn, td) =
     (let d = \<bar>lag_denom ps i\<bar>;
          n = (if lag_denom ps i < 0 then - lag_numer ps i else lag_numer ps i);
          newNum = tn * d + py (ps ! i) * n * td;
          newDen = td * d;
          g = gcd newNum newDen
      in if g = 0 then Inl DivisionByZero else Inr (newNum div g, newDen div g))"
  by (simp add: outer_body_def basis_eq bigintGcd_abs bigint_div_def Let_def sdiv_exact)

lemma outer_loop_snoc:
  "outer_loop ps (js @ [i]) tot =
     (case outer_loop ps js tot of Inl e \<Rightarrow> Inl e | Inr t \<Rightarrow> outer_body ps i t)"
  by (induction js arbitrary: tot) (auto split: sum.splits)

lemma outer_body_error: "outer_body ps i tot = Inl e \<Longrightarrow> e = DivisionByZero"
  by (cases tot) (auto simp: outer_body_cases Let_def split: if_splits)

lemma outer_loop_error: "outer_loop ps js tot = Inl e \<Longrightarrow> e = DivisionByZero"
  by (induction js arbitrary: tot) (auto split: sum.splits dest: outer_body_error)

text \<open>One iteration from a proper fraction with a non-zero basis denominator.\<close>

lemma outer_body_step:
  assumes td: "0 < td" and d: "lag_denom ps i \<noteq> 0"
  shows "\<exists>tn' td'. outer_body ps i (tn, td) = Inr (tn', td') \<and> 0 < td' \<and> coprime tn' td' \<and>
           real_of_int tn' / real_of_int td' =
             real_of_int tn / real_of_int td +
             of_int (py (ps ! i)) * of_int (lag_numer ps i) / of_int (lag_denom ps i)"
proof -
  define dd where "dd = \<bar>lag_denom ps i\<bar>"
  define n where "n = (if lag_denom ps i < 0 then - lag_numer ps i else lag_numer ps i)"
  define newNum where "newNum = tn * dd + py (ps ! i) * n * td"
  define newDen where "newDen = td * dd"
  define g where "g = gcd newNum newDen"
  have dd: "0 < dd" using d by (simp add: dd_def)
  have newDen: "0 < newDen" using td dd by (simp add: newDen_def)
  then have g: "0 < g" by (simp add: g_def)
  have res: "outer_body ps i (tn, td) = Inr (newNum div g, newDen div g)"
    using g by (simp add: outer_body_cases Let_def dd_def n_def newNum_def newDen_def g_def)
  have gn: "newNum div g * g = newNum" and gd: "newDen div g * g = newDen"
    by (simp_all add: g_def)
  have pos: "0 < newDen div g"
    using newDen g gd by (metis zero_less_mult_pos2)
  have cop: "coprime (newNum div g) (newDen div g)"
    unfolding g_def using newDen by (intro div_gcd_coprime) auto
  have ratio: "real_of_int n / real_of_int dd =
      real_of_int (lag_numer ps i) / real_of_int (lag_denom ps i)"
    by (simp add: n_def dd_def)
  have "real_of_int (newNum div g) / real_of_int (newDen div g) =
        real_of_int (newNum div g * g) / real_of_int (newDen div g * g)"
    using g by simp
  also have "\<dots> = real_of_int newNum / real_of_int newDen"
    by (simp only: gn gd)
  also have "\<dots> = real_of_int tn / real_of_int td +
        of_int (py (ps ! i)) * (real_of_int n / real_of_int dd)"
    using td dd by (simp add: newNum_def newDen_def field_simps)
  finally show ?thesis
    using res pos cop ratio by simp
qed

lemma outer_loop_distinct:
  assumes "distinct (map px ps)" "k \<le> length ps"
  shows "\<exists>tn td. outer_loop ps [0..<k] (0, 1) = Inr (tn, td) \<and> 0 < td \<and> coprime tn td \<and>
           real_of_int tn / real_of_int td = lagrange_sum ps k"
  using assms(2)
proof (induction k)
  case 0
  show ?case by (simp add: lagrange_sum_def)
next
  case (Suc k)
  then obtain tn td where st: "outer_loop ps [0..<k] (0, 1) = Inr (tn, td)" "0 < td"
      "real_of_int tn / real_of_int td = lagrange_sum ps k"
    by auto
  have "lag_denom ps k \<noteq> 0"
    using assms(1) Suc.prems by (simp add: lag_denom_nz)
  from outer_body_step [OF st(2) this, of tn]
  obtain tn' td' where "outer_body ps k (tn, td) = Inr (tn', td')" "0 < td'" "coprime tn' td'"
      "real_of_int tn' / real_of_int td' =
         real_of_int tn / real_of_int td +
         of_int (py (ps ! k)) * of_int (lag_numer ps k) / of_int (lag_denom ps k)"
    by blast
  then show ?case
    using st by (simp add: outer_loop_snoc lagrange_sum_def)
qed

text \<open>Once the running denominator is zero it stays zero, and a zero basis denominator throws.\<close>

lemma outer_body_zero_den:
  "outer_body ps i (tn, 0) = Inl DivisionByZero \<or> (\<exists>tn'. outer_body ps i (tn, 0) = Inr (tn', 0))"
  by (simp add: outer_body_cases Let_def)

lemma outer_body_zero_both:
  "lag_denom ps i = 0 \<Longrightarrow> outer_body ps i (tn, 0) = Inl DivisionByZero"
  by (simp add: outer_body_cases Let_def)

lemma outer_body_zero_basis:
  "lag_denom ps i = 0 \<Longrightarrow>
     outer_body ps i (tn, td) = Inl DivisionByZero \<or> (\<exists>tn'. outer_body ps i (tn, td) = Inr (tn', 0))"
  by (simp add: outer_body_cases Let_def)

lemma outer_loop_zero_den:
  "\<exists>i \<in> set js. lag_denom ps i = 0 \<Longrightarrow> outer_loop ps js (tn, 0) = Inl DivisionByZero"
proof (induction js arbitrary: tn)
  case Nil
  then show ?case by simp
next
  case (Cons j js)
  show ?case
  proof (cases "lag_denom ps j = 0")
    case True
    then show ?thesis by (simp add: outer_body_zero_both)
  next
    case False
    with Cons.prems have rest: "\<exists>i \<in> set js. lag_denom ps i = 0" by auto
    from outer_body_zero_den [of ps j tn] show ?thesis
      using Cons.IH [OF rest] by auto
  qed
qed

lemma outer_loop_two_zero:
  assumes "a \<in> set js" "b \<in> set js" "a \<noteq> b" "lag_denom ps a = 0" "lag_denom ps b = 0"
  shows "outer_loop ps js tot = Inl DivisionByZero"
  using assms
proof (induction js arbitrary: tot)
  case Nil
  then show ?case by simp
next
  case (Cons j js)
  obtain tn td where tot: "tot = (tn, td)" by (cases tot)
  show ?case
  proof (cases "lag_denom ps j = 0")
    case True
    have rest: "\<exists>i \<in> set js. lag_denom ps i = 0"
      using Cons.prems by (cases "j = a") auto
    from outer_body_zero_basis [OF True, of tn td] show ?thesis
      using outer_loop_zero_den [OF rest] by (auto simp: tot)
  next
    case False
    with Cons.prems have "a \<in> set js" "b \<in> set js" by auto
    then have "outer_loop ps js t = Inl DivisionByZero" for t
      using Cons.IH Cons.prems by blast
    then show ?thesis
      by (auto split: sum.splits dest: outer_body_error)
  qed
qed

lemma outer_loop_duplicate:
  assumes "\<not> distinct (map px ps)"
  shows "outer_loop ps [0..<length ps] tot = Inl DivisionByZero"
proof -
  from assms obtain a b where ab: "a < length ps" "b < length ps" "a \<noteq> b" "px (ps ! a) = px (ps ! b)"
    by (auto simp: distinct_conv_nth)
  have "lag_denom ps a = 0" "lag_denom ps b = 0"
    using ab by (auto intro: lag_denom_zero [of b ps a] lag_denom_zero [of a ps b])
  then show ?thesis
    using ab by (intro outer_loop_two_zero [of a _ b]) auto
qed

lemma computeConstantC_duplicate:
  "\<not> distinct (map px ps) \<Longrightarrow> computeConstantC ps = Inl DivisionByZero"
  by (simp add: computeConstantC_def outer_loop_duplicate)

lemma computeConstantC_distinct:
  assumes "distinct (map px ps)"
  shows "\<exists>n d. computeConstantC ps = Inr \<lparr>num = n, den = d\<rparr> \<and> 0 < d \<and> coprime n d \<and>
           outer_loop ps [0..<length ps] (0, 1) = Inr (n, d) \<and>
           real_of_int n / real_of_int d = lagrange_sum ps (length ps)"
proof -
  from outer_loop_distinct [OF assms, of "length ps"]
  obtain tn td where st: "outer_loop ps [0..<length ps] (0, 1) = Inr (tn, td)" "0 < td"
      "coprime tn td" "real_of_int tn / real_of_int td = lagrange_sum ps (length ps)"
    by auto
  have "gcd tn td = 1" using st(3) by simp
  then have "computeConstantC ps = Inr \<lparr>num = tn, den = td\<rparr>"
    using st(1,2) by (simp add: computeConstantC_def bigintGcd_abs bigint_div_def)
  then show ?thesis using st by simp
qed

section \<open>Lagrange interpolation\<close>

lemma polyfun_const: "polyfun n (\<lambda>z. a)"
proof -
  have "a = (\<Sum>i\<le>n. (if i = 0 then a else 0) * z ^ i)" for z :: real
    by (induction n) auto
  then show ?thesis unfolding polyfun_def
    by (intro exI [of _ "\<lambda>i. if i = 0 then a else 0"]) simp
qed

lemma polyfun_add:
  assumes "polyfun n f" "polyfun n g"
  shows "polyfun n (\<lambda>z. f z + g z)"
proof -
  from assms obtain c d where "\<forall>z. f z = (\<Sum>i\<le>n. c i * z ^ i)" "\<forall>z. g z = (\<Sum>i\<le>n. d i * z ^ i)"
    unfolding polyfun_def by blast
  then have "\<forall>z. f z + g z = (\<Sum>i\<le>n. (c i + d i) * z ^ i)"
    by (simp add: sum.distrib distrib_right)
  then show ?thesis unfolding polyfun_def
    by (intro exI [of _ "\<lambda>i. c i + d i"])
qed

lemma polyfun_scale:
  assumes "polyfun n f"
  shows "polyfun n (\<lambda>z. a * f z)"
proof -
  from assms obtain c where "\<forall>z. f z = (\<Sum>i\<le>n. c i * z ^ i)"
    unfolding polyfun_def by blast
  then have "\<forall>z. a * f z = (\<Sum>i\<le>n. (a * c i) * z ^ i)"
    by (simp add: sum_distrib_left mult.assoc)
  then show ?thesis unfolding polyfun_def
    by (intro exI [of _ "\<lambda>i. a * c i"])
qed

lemma polyfun_shift:
  assumes "polyfun n f"
  shows "polyfun (Suc n) (\<lambda>z. z * f z)"
proof -
  from assms obtain c where c: "\<forall>z. f z = (\<Sum>i\<le>n. c i * z ^ i)"
    unfolding polyfun_def by blast
  have "z * f z = (\<Sum>i\<le>Suc n. (if i = 0 then 0 else c (i - 1)) * z ^ i)" for z
  proof -
    have "(\<Sum>i\<le>Suc n. (if i = 0 then 0 else c (i - 1)) * z ^ i) = (\<Sum>i\<le>n. c i * z ^ Suc i)"
      by (subst sum.atMost_Suc_shift) simp
    also have "\<dots> = z * (\<Sum>i\<le>n. c i * z ^ i)"
      by (simp add: sum_distrib_left mult.left_commute)
    finally show ?thesis using c by simp
  qed
  then show ?thesis unfolding polyfun_def
    by (intro exI [of _ "\<lambda>i. if i = 0 then 0 else c (i - 1)"]) simp
qed

lemma polyfun_mono:
  assumes "polyfun n f"
  shows "polyfun (Suc n) f"
proof -
  from assms obtain c where c: "\<forall>z. f z = (\<Sum>i\<le>n. c i * z ^ i)"
    unfolding polyfun_def by blast
  have "f z = (\<Sum>i\<le>Suc n. (if i \<le> n then c i else 0) * z ^ i)" for z
    using c by simp
  then show ?thesis unfolding polyfun_def
    by (intro exI [of _ "\<lambda>i. if i \<le> n then c i else 0"]) simp
qed

lemma polyfun_linear:
  assumes "polyfun n f"
  shows "polyfun (Suc n) (\<lambda>z. (z - a) * f z)"
proof -
  have "polyfun (Suc n) (\<lambda>z. z * f z + (- a) * f z)"
    by (intro polyfun_add polyfun_shift polyfun_mono polyfun_scale assms)
  moreover have "(\<lambda>z. z * f z + (- a) * f z) = (\<lambda>z. (z - a) * f z)"
    by (auto simp: algebra_simps)
  ultimately show ?thesis by simp
qed

lemma polyfun_prod:
  assumes "finite S"
  shows "polyfun (card S) (\<lambda>z. \<Prod>j\<in>S. z - a j)"
  using assms
proof (induction S)
  case empty
  show ?case using polyfun_const [of 0 1] by simp
next
  case (insert x S)
  then show ?case
    using polyfun_linear [of "card S" "\<lambda>z. \<Prod>j\<in>S. z - a j" "a x"] by simp
qed

lemma polyfun_sum:
  "(\<And>i. i < k \<Longrightarrow> polyfun n (f i)) \<Longrightarrow> polyfun n (\<lambda>z. \<Sum>i<k. f i z)" for k :: nat
proof (induction k)
  case 0
  show ?case using polyfun_const [of n 0] by simp
next
  case (Suc k)
  then show ?case by (simp add: polyfun_add)
qed

lemma poly_eval_sum: "poly_eval cs x = (\<Sum>i<length cs. cs ! i * x ^ i)"
proof (induction cs)
  case Nil
  show ?case by simp
next
  case (Cons c cs)
  have "(\<Sum>i<length (c # cs). (c # cs) ! i * x ^ i) = c + (\<Sum>i<length cs. cs ! i * x ^ Suc i)"
    by (simp add: sum.lessThan_Suc_shift del: sum.lessThan_Suc)
  also have "\<dots> = c + x * (\<Sum>i<length cs. cs ! i * x ^ i)"
    by (simp add: sum_distrib_left mult.left_commute)
  finally show ?case using Cons by simp
qed

lemma polyfun_poly_eval:
  assumes "length cs \<le> Suc n"
  shows "\<exists>c. \<forall>z::int. real_of_int (poly_eval cs z) = (\<Sum>i\<le>n. c i * real_of_int z ^ i)"
proof -
  have "real_of_int (poly_eval cs z) =
      (\<Sum>i\<le>n. (if i < length cs then real_of_int (cs ! i) else 0) * real_of_int z ^ i)" for z
  proof -
    have "(\<Sum>i\<le>n. (if i < length cs then real_of_int (cs ! i) else 0) * real_of_int z ^ i) =
          (\<Sum>i\<in>{..n} \<inter> {i. i < length cs}. real_of_int (cs ! i) * real_of_int z ^ i)"
      by (subst sum.inter_restrict) (auto intro: sum.cong)
    also have "{..n} \<inter> {i. i < length cs} = {..<length cs}"
      using assms by auto
    finally show ?thesis by (simp add: poly_eval_sum)
  qed
  then show ?thesis
    by (intro exI [of _ "\<lambda>i. if i < length cs then real_of_int (cs ! i) else 0"]) simp
qed

lemma lagrange_poly_0: "lagrange_poly ps 0 = lagrange_sum ps (length ps)"
  by (simp add: lagrange_poly_def lagrange_sum_def lag_numer_def)

lemma lagrange_poly_polyfun:
  assumes "ps \<noteq> []"
  shows "polyfun (length ps - 1) (lagrange_poly ps)"
proof -
  have "polyfun (length ps - 1) (\<lambda>z. \<Prod>j \<in> {..<length ps} - {i}. z - of_int (px (ps ! j)))"
    if "i < length ps" for i
    using polyfun_prod [of "{..<length ps} - {i}" "\<lambda>j. of_int (px (ps ! j))"] that by simp
  then have "polyfun (length ps - 1) (\<lambda>z. \<Sum>i<length ps. of_int (py (ps ! i)) / of_int (lag_denom ps i) *
        (\<Prod>j \<in> {..<length ps} - {i}. z - of_int (px (ps ! j))))"
    by (intro polyfun_sum polyfun_scale)
  then show ?thesis
    by (simp add: lagrange_poly_def [abs_def])
qed

lemma lagrange_poly_at:
  assumes "distinct (map px ps)" "a < length ps"
  shows "lagrange_poly ps (of_int (px (ps ! a))) = of_int (py (ps ! a))"
proof -
  define t where "t = (\<lambda>i. of_int (py (ps ! i)) / of_int (lag_denom ps i) *
        (\<Prod>j \<in> {..<length ps} - {i}. real_of_int (px (ps ! a)) - of_int (px (ps ! j))))"
  have zero: "t i = 0" if "i \<noteq> a" for i
  proof -
    have "(\<Prod>j \<in> {..<length ps} - {i}. real_of_int (px (ps ! a)) - of_int (px (ps ! j))) = 0"
      using that assms(2) by (auto intro!: bexI [of _ a])
    then show ?thesis by (simp add: t_def)
  qed
  have "lagrange_poly ps (of_int (px (ps ! a))) = (\<Sum>i<length ps. t i)"
    by (simp add: lagrange_poly_def t_def)
  also have "\<dots> = (\<Sum>i<length ps. if i = a then t a else 0)"
    by (intro sum.cong refl) (simp add: zero)
  also have "\<dots> = t a"
    using assms(2) by simp
  also have "\<dots> = of_int (py (ps ! a))"
    using lag_denom_nz [OF assms] by (simp add: lag_denom_def t_def)
  finally show ?thesis .
qed

text \<open>Two polynomials of degree less than \<open>m\<close> that agree on \<open>m\<close> points agree everywhere.\<close>

lemma polyfun_unique:
  fixes c d :: "nat \<Rightarrow> real"
  assumes fin: "finite X" and card: "n < card X"
    and agree: "\<And>x. x \<in> X \<Longrightarrow> (\<Sum>i\<le>n. c i * x ^ i) = (\<Sum>i\<le>n. d i * x ^ i)"
  shows "(\<Sum>i\<le>n. c i * z ^ i) = (\<Sum>i\<le>n. d i * z ^ i)"
proof -
  let ?e = "\<lambda>i. c i - d i"
  have root: "(\<Sum>i\<le>n. ?e i * x ^ i) = 0" if "x \<in> X" for x
    using agree [OF that] by (simp add: left_diff_distrib sum_subtractf)
  have "\<forall>i\<le>n. ?e i = 0"
  proof (rule ccontr)
    assume "\<not> (\<forall>i\<le>n. ?e i = 0)"
    then obtain k where k: "?e k \<noteq> 0" "k \<le> n" by blast
    have f: "finite {z. (\<Sum>i\<le>n. ?e i * z ^ i) = 0}"
      and cd: "card {z. (\<Sum>i\<le>n. ?e i * z ^ i) = 0} \<le> n"
      using polyfun_rootbound [of ?e k n] k by auto
    have "X \<subseteq> {z. (\<Sum>i\<le>n. ?e i * z ^ i) = 0}"
      using root by auto
    then have "card X \<le> card {z. (\<Sum>i\<le>n. ?e i * z ^ i) = 0}"
      using f by (rule card_mono [rotated])
    with cd card show False by simp
  qed
  then have "(\<Sum>i\<le>n. c i * z ^ i) = (\<Sum>i\<le>n. d i * z ^ i)"
    by simp
  then show ?thesis .
qed

lemma lagrange_identity:
  assumes dist: "distinct (map px ps)" and ne: "ps \<noteq> []"
    and deg: "length cs \<le> length ps"
    and on: "\<And>p. p \<in> set ps \<Longrightarrow> py p = poly_eval cs (px p)"
  shows "lagrange_sum ps (length ps) = of_int (poly_eval cs 0)"
proof -
  define n where "n = length ps - 1"
  have len: "length ps = Suc n" using ne by (cases ps) (simp_all add: n_def)
  obtain c where c: "\<And>z. lagrange_poly ps z = (\<Sum>i\<le>n. c i * z ^ i)"
    using lagrange_poly_polyfun [OF ne] unfolding polyfun_def n_def by blast
  obtain d where d: "\<And>z::int. real_of_int (poly_eval cs z) = (\<Sum>i\<le>n. d i * real_of_int z ^ i)"
    using polyfun_poly_eval [of cs n] deg len by auto
  define X where "X = (\<lambda>a. real_of_int (px (ps ! a))) ` {..<length ps}"
  have inj: "inj_on (\<lambda>a. real_of_int (px (ps ! a))) {..<length ps}"
    using dist by (auto simp: inj_on_def distinct_conv_nth)
  have "card X = length ps"
    unfolding X_def using card_image [OF inj] by simp
  then have card: "n < card X"
    using len by simp
  have fin: "finite X" unfolding X_def by simp
  have agree: "(\<Sum>i\<le>n. c i * x ^ i) = (\<Sum>i\<le>n. d i * x ^ i)" if "x \<in> X" for x
  proof -
    from that obtain a where a: "a < length ps" "x = real_of_int (px (ps ! a))"
      by (auto simp: X_def)
    have "(\<Sum>i\<le>n. c i * x ^ i) = of_int (py (ps ! a))"
      using lagrange_poly_at [OF dist a(1)] by (simp add: c a(2))
    also have "\<dots> = real_of_int (poly_eval cs (px (ps ! a)))"
      using on [of "ps ! a"] a(1) by simp
    also have "\<dots> = (\<Sum>i\<le>n. d i * x ^ i)"
      by (simp add: d a(2))
    finally show ?thesis .
  qed
  have "lagrange_poly ps 0 = (\<Sum>i\<le>n. c i * 0 ^ i)" by (rule c)
  also have "\<dots> = (\<Sum>i\<le>n. d i * 0 ^ i)"
    by (rule polyfun_unique [OF fin card agree])
  also have "\<dots> = real_of_int (poly_eval cs 0)"
    using d [of 0] by simp
  finally show ?thesis by (simp add: lagrange_poly_0)
qed

section \<open>Results of the evaluator and of the formatter\<close>

lemma smod_zero_iff: "l \<noteq> 0 \<Longrightarrow> k smod l = 0 \<longleftrightarrow> l dvd k" for k l :: int
  by (auto simp: signed_modulo_int_def sgn_if)

lemma format_result_eq:
  assumes "0 < den f"
  shows "format_result f =
     Inr (if den f = 1 then bigint_toString (num f)
          else if den f dvd num f then bigint_toString (num f div den f)
          else bigint_toString (num f) @ ''/'' @ bigint_toString (den f))"
  using assms
  by (simp add: format_result_def bigint_mod_def bigint_div_def smod_zero_iff sdiv_exact)

lemma computeConstantC_success:
  assumes "computeConstantC ps = Inr f"
  shows "distinct (map px ps) \<and> 0 < den f \<and> coprime (num f) (den f) \<and>
         outer_loop ps [0..<length ps] (0, 1) = Inr (num f, den f)"
proof -
  have d: "distinct (map px ps)"
    using assms computeConstantC_duplicate [of ps] by auto
  from computeConstantC_distinct [OF d] assms show ?thesis
    using d by auto
qed

lemma coprime_not_dvd:
  fixes n d :: int
  assumes "coprime n d" "0 < d" "d \<noteq> 1"
  shows "1 < d \<and> \<not> d dvd n"
proof -
  have "1 < d" using assms by simp
  moreover have "\<not> d dvd n"
  proof
    assume "d dvd n"
    then have "is_unit d" using assms(1) by (metis coprime_absorb_right coprime_commute)
    then show False using assms by simp
  qed
  ultimately show ?thesis by simp
qed

lemma computeConstantC_poly:
  assumes ne: "points \<noteq> []" and dist: "distinct (map px points)"
    and deg: "length cs \<le> length points"
    and on: "map py points = map (\<lambda>p. poly_eval cs (px p)) points"
  shows "computeConstantC points = Inr \<lparr>num = poly_eval cs 0, den = 1\<rparr>"
proof -
  from computeConstantC_distinct [OF dist]
  obtain n d where r: "computeConstantC points = Inr \<lparr>num = n, den = d\<rparr>" "0 < d" "coprime n d"
      "real_of_int n / real_of_int d = lagrange_sum points (length points)"
    by blast
  have "py p = poly_eval cs (px p)" if "p \<in> set points" for p
    using on that by (simp add: map_eq_conv)
  then have "lagrange_sum points (length points) = of_int (poly_eval cs 0)"
    by (rule lagrange_identity [OF dist ne deg])
  with r(4) r(2) have "real_of_int n = real_of_int (poly_eval cs 0 * d)"
    by (simp add: field_simps)
  then have n: "n = poly_eval cs 0 * d"
    by (simp only: of_int_eq_iff)
  then have "d dvd n" by simp
  with r(3) have "is_unit d"
    by (metis coprime_absorb_right coprime_commute)
  with r(2) have "d = 1" by simp
  with n r(1) show ?thesis by simp
qed

section \<open>Results of the decoder\<close>

lemma charCode_digit_char:
  "0 \<le> d \<Longrightarrow> d < 36 \<Longrightarrow> charCode (digit_char d) = (if d < 10 then 48 + d else 87 + d)"
  by (simp add: charCode_def digit_char_def)

lemma digit_loop_snoc:
  "digit_loop b (s @ [ch]) v =
     (case digit_loop b s v of Inl e \<Rightarrow> Inl e | Inr w \<Rightarrow> digit_loop b [ch] w)"
  by (induction s arbitrary: v) (simp_all add: Let_def)

lemma digit_loop_digit_char:
  assumes "0 \<le> d" "d < b" "b \<le> 36"
  shows "digit_loop b [digit_char d] v = Inr (v * b + d)"
proof -
  have d: "d < 36" using assms by simp
  show ?thesis
    using assms by (simp add: charCode_digit_char [OF assms(1) d] Let_def)
qed

lemma to_radix_small: "n < b \<Longrightarrow> to_radix b n = [digit_char n]"
  by (simp add: to_radix.simps)

lemma to_radix_rec:
  "2 \<le> b \<Longrightarrow> b \<le> n \<Longrightarrow> to_radix b n = to_radix b (n div b) @ [digit_char (n mod b)]"
  by (subst to_radix.simps) simp

lemma to_radix_nonempty: "to_radix b n \<noteq> []"
  by (subst to_radix.simps) simp

lemma digit_loop_to_radix:
  "2 \<le> b \<Longrightarrow> b \<le> 36 \<Longrightarrow> 0 \<le> n \<Longrightarrow> digit_loop b (to_radix b n) 0 = Inr n"
proof (induction b n rule: to_radix.induct)
  case (1 b n)
  show ?case
  proof (cases "n < b")
    case True
    then show ?thesis
      using digit_loop_digit_char [OF "1.prems"(3) True "1.prems"(2), of 0]
      by (simp add: to_radix_small)
  next
    case False
    then have rec: "to_radix b n = to_radix b (n div b) @ [digit_char (n mod b)]"
      using "1.prems" by (simp add: to_radix_rec)
    have q: "0 \<le> n div b" using "1.prems" by (simp add: pos_imp_zdiv_nonneg_iff)
    have ih: "digit_loop b (to_radix b (n div b)) 0 = Inr (n div b)"
      using "1.IH" False "1.prems" q by simp
    have m: "0 \<le> n mod b" "n mod b < b" using "1.prems" by simp_all
    have step: "digit_loop b [digit_char (n mod b)] (n div b) = Inr (n div b * b + n mod b)"
      by (rule digit_loop_digit_char [OF m "1.prems"(2)])
    have "digit_loop b (to_radix b n) 0 = Inr (n div b * b + n mod b)"
      by (simp only: rec digit_loop_snoc ih sum.case step)
    then show ?thesis by simp
  qed
qed

lemma to_radix_chars:
  "2 \<le> b \<Longrightarrow> b \<le> 36 \<Longrightarrow> 0 \<le> n \<Longrightarrow> ch \<in> set (to_radix b n) \<Longrightarrow>
     \<exists>d. 0 \<le> d \<and> d < b \<and> ch = digit_char d"
proof (induction b n rule: to_radix.induct)
  case (1 b n)
  show ?case
  proof (cases "n < b")
    case True
    with "1.prems" show ?thesis by (auto simp: to_radix_small)
  next
    case False
    then have rec: "to_radix b n = to_radix b (n div b) @ [digit_char (n mod b)]"
      using "1.prems" by (simp add: to_radix_rec)
    have q: "0 \<le> n div b" using "1.prems" by (simp add: pos_imp_zdiv_nonneg_iff)
    from "1.prems"(4) rec consider "ch \<in> set (to_radix b (n div b))" | "ch = digit_char (n mod b)"
      by auto
    then show ?thesis
    proof cases
      case 1
      then show ?thesis using "1.IH" False "1.prems" q by simp
    next
      case 2
      then show ?thesis using "1.prems" by (auto intro!: exI [of _ "n mod b"])
    qed
  qed
qed

lemma digit_char_plain:
  assumes "0 \<le> d" "d < 36"
  shows "\<not> is_ws (digit_char d)" and "lower_char (digit_char d) = digit_char d"
  using assms by (auto simp: is_ws_def lower_char_def charCode_digit_char)

lemma js_trim_no_ws:
  assumes "\<forall>ch \<in> set s. \<not> is_ws ch"
  shows "js_trim s = s"
proof -
  have "dropWhile is_ws t = t" if "\<forall>ch \<in> set t. \<not> is_ws ch" for t
    using that by (cases t) auto
  from this [of s] this [of "rev s"] assms show ?thesis
    by (simp add: js_trim_def)
qed

lemma to_radix_plain:
  assumes "2 \<le> b" "b \<le> 36" "0 \<le> n"
  shows "toLowerCase (js_trim (to_radix b n)) = to_radix b n"
proof -
  have ch: "\<not> is_ws ch \<and> lower_char ch = ch" if "ch \<in> set (to_radix b n)" for ch
  proof -
    from to_radix_chars [OF assms that] obtain d where "0 \<le> d" "d < b" "ch = digit_char d"
      by blast
    with assms(2) show ?thesis using digit_char_plain [of d] by simp
  qed
  then have "js_trim (to_radix b n) = to_radix b n"
    by (intro js_trim_no_ws) blast
  moreover have "map lower_char (to_radix b n) = to_radix b n"
    using ch by (simp add: map_idI)
  ultimately show ?thesis by (simp add: toLowerCase_def)
qed

lemma digit_char_zero:
  assumes "0 \<le> d" "d < 36"
  shows "digit_char d = CHR ''0'' \<longleftrightarrow> d = 0"
proof
  have z: "charCode (CHR ''0'') = 48" by (simp add: charCode_def)
  assume "digit_char d = CHR ''0''"
  then have "charCode (digit_char d) = 48" using z by simp
  then show "d = 0" using assms by (simp add: charCode_digit_char split: if_splits)
next
  have "digit_char 0 = CHR ''0''" by code_simp
  moreover assume "d = 0"
  ultimately show "digit_char d = CHR ''0''" by simp
qed

lemma to_radix_hd:
  "2 \<le> b \<Longrightarrow> b \<le> 36 \<Longrightarrow> 0 < n \<Longrightarrow> hd (to_radix b n) \<noteq> CHR ''0''"
proof (induction b n rule: to_radix.induct)
  case (1 b n)
  show ?case
  proof (cases "n < b")
    case True
    moreover have "n < 36" using True "1.prems" by simp
    ultimately show ?thesis using "1.prems"(3) by (simp add: to_radix_small digit_char_zero)
  next
    case False
    then have rec: "to_radix b n = to_radix b (n div b) @ [digit_char (n mod b)]"
      using "1.prems" by (simp add: to_radix_rec)
    have "0 < n div b" using False "1.prems" by (simp add: pos_imp_zdiv_pos_iff)
    then have "hd (to_radix b (n div b)) \<noteq> CHR ''0''"
      using "1.IH" False "1.prems" by simp
    then show ?thesis by (simp add: rec to_radix_nonempty)
  qed
qed

lemma strip_zeros_hd: "s = [] \<or> hd s \<noteq> CHR ''0'' \<Longrightarrow> strip_zeros s = s"
  by (cases s rule: strip_zeros.cases) auto

lemma strip_zeros_to_radix:
  assumes "2 \<le> b" "b \<le> 36" "0 \<le> n"
  shows "strip_zeros (to_radix b n) = to_radix b n"
proof (cases "n = 0")
  case True
  then show ?thesis using assms by (simp add: to_radix_small)
next
  case False
  then have "0 < n" using assms by simp
  then show ?thesis using to_radix_hd [OF assms(1,2), of n] by (simp add: strip_zeros_hd)
qed

lemma bigint_of_number_int: "bigint_of_number (js_Number (Some (JNum r))) = Inr r"
  by (simp add: bigint_of_number_def js_Number_def)

lemma parse_string_eq:
  "s \<noteq> [] \<Longrightarrow>
     parseBigIntFromBase (Some (JStr s)) (Some (JNum r)) =
       digit_loop r (strip_zeros (toLowerCase (js_trim s))) 0"
  by (simp add: parseBigIntFromBase_def truthy_def bigint_of_number_int)

lemma parse_to_radix:
  assumes "2 \<le> b" "b \<le> 36" "0 \<le> n"
  shows "parseBigIntFromBase (Some (JStr (to_radix b n))) (Some (JNum b)) = Inr n"
  using assms
  by (simp add: parse_string_eq to_radix_nonempty to_radix_plain strip_zeros_to_radix
      digit_loop_to_radix)

lemma is_InvalidDigit_simps [simp]:
  "is_InvalidDigit (Inl InvalidCharacter)" "is_InvalidDigit (Inl DigitGeBase)"
  "\<not> is_InvalidDigit (Inr v)"
  by (simp_all add: is_InvalidDigit_def)

lemma digit_loop_bad:
  "list_ex (bad_char r) u \<Longrightarrow> is_InvalidDigit (digit_loop r u v)"
  by (induction u arbitrary: v) (auto simp: bad_char_def digit_value_def Let_def split: if_splits)

lemma digit_loop_good:
  "\<not> list_ex (bad_char r) u \<Longrightarrow> \<exists>w. digit_loop r u v = Inr w"
  by (induction u arbitrary: v) (auto simp: bad_char_def digit_value_def Let_def split: if_splits)

lemma digit_loop_invalid_iff:
  "is_InvalidDigit (digit_loop r u v) \<longleftrightarrow> list_ex (bad_char r) u"
proof (cases "list_ex (bad_char r) u")
  case True
  then show ?thesis using digit_loop_bad [of r u v] by simp
next
  case False
  then obtain w where "digit_loop r u v = Inr w"
    using digit_loop_good [of r u v] by blast
  then show ?thesis using False by simp
qed

lemma zero_not_bad: "0 < r \<Longrightarrow> \<not> bad_char r (CHR ''0'')"
  by (simp add: bad_char_def digit_value_def charCode_def)

lemma strip_zeros_bad:
  "0 < r \<Longrightarrow> list_ex (bad_char r) (strip_zeros t) = list_ex (bad_char r) t"
  by (induction t rule: strip_zeros.induct) (auto simp: zero_not_bad)

lemma dropWhile_keeps: "x \<in> set xs \<Longrightarrow> \<not> P x \<Longrightarrow> x \<in> set (dropWhile P xs)"
  by (induction xs) auto

lemma js_trim_keeps: "ch \<in> set s \<Longrightarrow> \<not> is_ws ch \<Longrightarrow> ch \<in> set (js_trim s)"
  by (simp add: js_trim_def dropWhile_keeps)

lemma g_is_bad:
  "\<not> is_ws (CHR ''g'')" "lower_char (CHR ''g'') = CHR ''g''" "bad_char 10 (CHR ''g'')"
  by (simp_all add: is_ws_def lower_char_def bad_char_def digit_value_def charCode_def)

lemma g_stays_bad:
  assumes "CHR ''g'' \<in> set s"
  shows "list_ex (bad_char 10) (toLowerCase (js_trim s))"
proof -
  have "CHR ''g'' \<in> set (js_trim s)"
    using assms g_is_bad(1) by (rule js_trim_keeps)
  then have "lower_char (CHR ''g'') \<in> set (toLowerCase (js_trim s))"
    unfolding toLowerCase_def by (simp only: set_map) (rule imageI)
  then show ?thesis
    using g_is_bad by (auto simp: list_ex_iff)
qed

lemma base_of_decimal_string:
  "\<forall>b \<in> set [2..36]. bigint_of_number (js_Number (Some (JStr (to_radix 10 b)))) = Inr b"
  by code_simp

lemma parse_to_radix_string_base:
  assumes "2 \<le> b" "b \<le> 36" "0 \<le> n"
  shows "parseBigIntFromBase (Some (JStr (to_radix b n))) (Some (JStr (to_radix 10 b))) = Inr n"
proof -
  have "b \<in> {2..36}" using assms by simp
  then have "b \<in> set [2..36]" by (simp only: set_upto)
  with base_of_decimal_string
  have "bigint_of_number (js_Number (Some (JStr (to_radix 10 b)))) = Inr b" by blast
  then show ?thesis
    using assms
    by (simp add: parseBigIntFromBase_def truthy_def to_radix_nonempty to_radix_plain
        strip_zeros_to_radix digit_loop_to_radix)
qed


section \<open>Results of the main script\<close>

lemma computeConstantC_Nil: "computeConstantC [] = Inr \<lparr>num = 0, den = 1\<rparr>"
  using computeConstantC_distinct [of "[]"] by simp

lemma format_zero: "format_result \<lparr>num = 0, den = 1\<rparr> = Inr ''0''"
  by code_simp

lemma solve_no_entries: "select_entries doc = Inr [] \<Longrightarrow> solve doc = Inr ''0''"
  by (simp add: solve_def form_points_def computeConstantC_Nil format_zero)

lemma get_field_truthy: "get_field keys name = Some w \<Longrightarrow> truthy keys"
  by (cases keys) (simp_all add: get_field_def truthy_def)

lemma slice0_zero: "slice0 xs (Fin 0) = []"
  by (simp add: slice0_def)

lemma select_entries_k_zero:
  assumes "map_of data ''keys'' = Some keys" "get_field keys ''k'' = Some kv"
    and "js_Number (Some kv) = Fin 0"
  shows "select_entries (JObj data) =
     (case map_throwing (make_entry data) (filter (\<lambda>key. key \<noteq> ''keys'') (object_keys data)) of
        Inl e \<Rightarrow> Inl e | Inr entries \<Rightarrow> Inr [])"
  using assms get_field_truthy [OF assms(2)]
  by (simp add: select_entries_def length_less_def slice0_zero split: sum.splits)

lemma map_throwing_fails:
  "x \<in> set xs \<Longrightarrow> f x = Inl e \<Longrightarrow> \<exists>e'. map_throwing f xs = Inl e'"
  by (induction xs) (auto split: sum.splits)

lemma select_entries_missing_keys:
  assumes "map_of data ''keys'' = None \<or>
           (\<exists>keys. map_of data ''keys'' = Some keys \<and> get_field keys ''k'' = None)"
  shows "select_entries (JObj data) = Inl MissingKeys"
  using assms by (auto simp: select_entries_def)

lemma parse_missing_value: "parseBigIntFromBase None b = Inr 0"
  by (simp add: parseBigIntFromBase_def)

lemma parse_missing_base: "truthy v \<Longrightarrow> parseBigIntFromBase (Some v) None = Inl BigIntRangeError"
  by (simp add: parseBigIntFromBase_def js_Number_def bigint_of_number_def)

lemma solve_missing_base:
  assumes "select_entries doc = Inr es" "e \<in> set es" "val e = Some v" "truthy v" "base e = None"
  shows "\<exists>err. solve doc = Inl err"
proof -
  have "entry_point e = Inl BigIntRangeError"
    using assms by (simp add: entry_point_def parse_missing_base)
  from map_throwing_fails [of e es entry_point BigIntRangeError, OF assms(2) this]
  obtain err where "form_points es = Inl err"
    unfolding form_points_def by blast
  then show ?thesis using assms(1) by (simp add: solve_def)
qed

lemma map_throwing_Inr_iff: "map_throwing f xs = Inr ys \<longleftrightarrow> map f xs = map Inr ys"
proof (induction xs arbitrary: ys)
  case Nil
  show ?case by auto
next
  case (Cons x xs)
  show ?case
  proof (cases "f x")
    case (Inl e)
    then show ?thesis by (cases ys) auto
  next
    case (Inr y)
    show ?thesis
    proof (cases "map_throwing f xs")
      case (Inl e)
      have "map f xs \<noteq> map Inr zs" for zs
        using Cons.IH [of zs] Inl by simp
      with Inl Inr show ?thesis by (cases ys) auto
    next
      case r: (Inr zs)
      then have "map f xs = map Inr zs" using Cons.IH by simp
      with r Inr show ?thesis by (cases ys) (auto dest: map_injective simp: inj_on_def)
    qed
  qed
qed

lemma map_throwing_Inr_set:
  assumes "map_throwing f xs = Inr ys"
  shows "map_throwing f xs = Inr (map (\<lambda>x. projr (f x)) xs)"
    and "\<forall>x \<in> set xs. f x = Inr (projr (f x))"
proof -
  from assms have m: "map f xs = map Inr ys" by (simp add: map_throwing_Inr_iff)
  show ok: "\<forall>x \<in> set xs. f x = Inr (projr (f x))"
  proof
    fix x assume "x \<in> set xs"
    then have "f x \<in> set (map Inr ys)" using m by (metis imageI set_map)
    then show "f x = Inr (projr (f x))" by auto
  qed
  then have "map f xs = map Inr (map (\<lambda>x. projr (f x)) xs)" by simp
  then show "map_throwing f xs = Inr (map (\<lambda>x. projr (f x)) xs)"
    by (simp only: map_throwing_Inr_iff)
qed

lemma map_throwing_all_ok:
  assumes "\<forall>x \<in> set xs. f x = Inr (projr (f x))"
  shows "map_throwing f xs = Inr (map (\<lambda>x. projr (f x)) xs)"
proof -
  from assms have "map f xs = map Inr (map (\<lambda>x. projr (f x)) xs)" by simp
  then show ?thesis by (simp only: map_throwing_Inr_iff)
qed

lemma map_throwing_perm:
  assumes "mset xs' = mset xs" "map_throwing f xs = Inr ys"
  shows "\<exists>ys'. map_throwing f xs' = Inr ys' \<and> mset ys' = mset ys"
proof -
  have s: "set xs' = set xs" using assms(1) by (rule mset_eq_setD)
  have ys: "ys = map (\<lambda>x. projr (f x)) xs"
    using map_throwing_Inr_set(1) [OF assms(2)] assms(2) by simp
  have "\<forall>x \<in> set xs'. f x = Inr (projr (f x))"
    using map_throwing_Inr_set(2) [OF assms(2)] s by simp
  then have "map_throwing f xs' = Inr (map (\<lambda>x. projr (f x)) xs')"
    by (rule map_throwing_all_ok)
  moreover have "mset (map (\<lambda>x. projr (f x)) xs') = mset ys"
    using assms(1) by (simp add: ys)
  ultimately show ?thesis by blast
qed

lemma mset_object_keys: "mset (object_keys data) = mset (map fst data)"
proof -
  have "mset (object_keys data) =
      filter_mset is_array_index (mset (map fst data)) +
      filter_mset (\<lambda>key. \<not> is_array_index key) (mset (map fst data))"
    by (simp add: object_keys_def)
  then show ?thesis by (simp only: multiset_partition [symmetric])
qed

lemma sort_key_perm:
  assumes "mset es' = mset es" "inj_on f (set es)"
  shows "sort_key f es' = sort_key f es"
proof -
  have s: "set es' = set es" using assms(1) by (rule mset_eq_setD)
  have "mset (map f (sort_key f es')) = mset (map f (sort_key f es))"
    using assms(1) by simp
  moreover have "sorted (map f (sort_key f es'))" "sorted (map f (sort_key f es))"
    by simp_all
  ultimately have "map f (sort_key f es') = map f (sort_key f es)"
    by (metis properties_for_sort)
  moreover have "inj_on f (set (sort_key f es') \<union> set (sort_key f es))"
    using assms(2) s by simp
  ultimately show ?thesis
    by (simp add: inj_on_map_eq_map)
qed

lemma make_entry_fields:
  assumes "make_entry data key = Inr e"
  shows "keyStr e = key" and "bigint_of_string key = Inr (xBig e)"
  using assms by (auto simp: make_entry_def split: sum.splits option.splits if_splits)

lemma x_of_key_unique:
  assumes "distinct (concat (map (\<lambda>key. case bigint_of_string key of Inl e \<Rightarrow> [] | Inr x \<Rightarrow> [x]) K))"
    and "k1 \<in> set K" "k2 \<in> set K"
    and "bigint_of_string k1 = Inr x" "bigint_of_string k2 = Inr x"
  shows "k1 = k2"
  using assms
proof (induction K)
  case Nil
  then show ?case by simp
next
  case (Cons k K)
  let ?h = "\<lambda>key. case bigint_of_string key of Inl e \<Rightarrow> [] | Inr x \<Rightarrow> [x]"
  have d: "distinct (concat (map ?h K))" using Cons.prems(1) by simp
  have away: "x \<notin> set (concat (map ?h K))" if "bigint_of_string k = Inr x"
    using Cons.prems(1) that by auto
  have inK: "x \<in> set (concat (map ?h K))" if "k' \<in> set K" "bigint_of_string k' = Inr x" for k'
    using that by (auto intro!: bexI [of _ k'])
  show ?case
  proof (cases "k1 = k")
    case True
    show ?thesis
    proof (cases "k2 = k")
      case True
      with \<open>k1 = k\<close> show ?thesis by simp
    next
      case False
      then have "k2 \<in> set K" using Cons.prems(3) by simp
      from inK [OF this Cons.prems(5)] away True Cons.prems(4) show ?thesis by simp
    qed
  next
    case False
    then have k1: "k1 \<in> set K" using Cons.prems(2) by simp
    show ?thesis
    proof (cases "k2 = k")
      case True
      from inK [OF k1 Cons.prems(4)] away True Cons.prems(5) show ?thesis by simp
    next
      case False
      then have "k2 \<in> set K" using Cons.prems(3) by simp
      from Cons.IH [OF d k1 this Cons.prems(4,5)] show ?thesis .
    qed
  qed
qed

lemma entries_inj:
  assumes dx: "distinct (x_values data)"
    and ks: "set ks \<subseteq> {key \<in> set (map fst data). key \<noteq> ''keys''}"
    and es: "map_throwing (make_entry data) ks = Inr es"
  shows "inj_on xBig (set es)"
proof (rule inj_onI)
  fix e1 e2
  assume e1: "e1 \<in> set es" and e2: "e2 \<in> set es" and eq: "xBig e1 = xBig e2"
  have m: "map (make_entry data) ks = map Inr es"
    using es by (simp add: map_throwing_Inr_iff)
  have src: "\<exists>k \<in> set ks. make_entry data k = Inr e" if "e \<in> set es" for e
  proof -
    from that have "Inr e \<in> set (map (make_entry data) ks)" by (simp add: m)
    then show ?thesis by auto
  qed
  from src [OF e1] obtain k1 where k1: "k1 \<in> set ks" "make_entry data k1 = Inr e1" by blast
  from src [OF e2] obtain k2 where k2: "k2 \<in> set ks" "make_entry data k2 = Inr e2" by blast
  let ?K = "filter (\<lambda>key. key \<noteq> ''keys'') (map fst data)"
  have "k1 \<in> set ?K" "k2 \<in> set ?K" using k1(1) k2(1) ks by auto
  moreover have "bigint_of_string k1 = Inr (xBig e1)" "bigint_of_string k2 = Inr (xBig e1)"
    using make_entry_fields(2) [OF k1(2)] make_entry_fields(2) [OF k2(2)] eq by simp_all
  moreover have "distinct (concat (map (\<lambda>key. case bigint_of_string key of Inl e \<Rightarrow> [] | Inr x \<Rightarrow> [x]) ?K))"
    using dx by (simp add: x_values_def)
  ultimately have "k1 = k2" by (rule x_of_key_unique [rotated])
  with k1(2) k2(2) show "e1 = e2" by simp
qed

lemma map_of_perm:
  assumes "distinct (map fst data)" "mset data' = mset data"
  shows "map_of data' = map_of data"
proof -
  have "mset (map fst data') = mset (map fst data)" using assms(2) by simp
  then have "distinct (map fst data')" using assms(1) by (metis mset_eq_imp_distinct_iff)
  moreover have "set data' = set data" using assms(2) by (rule mset_eq_setD)
  ultimately show ?thesis using assms(1) by (simp add: map_of_inject_set)
qed

lemma make_entry_cong: "map_of data' = map_of data \<Longrightarrow> make_entry data' = make_entry data"
  by (rule ext) (simp add: make_entry_def split: sum.splits)

lemma select_entries_perm:
  assumes dk: "distinct (map fst data)" and perm: "mset data' = mset data"
    and dx: "distinct (x_values data)"
  shows "select_entries (JObj data') = select_entries (JObj data) \<or>
         (\<exists>e e'. select_entries (JObj data') = Inl e' \<and> select_entries (JObj data) = Inl e)"
proof -
  have mo: "map_of data' = map_of data" by (rule map_of_perm [OF dk perm])
  have me: "make_entry data' = make_entry data" by (rule make_entry_cong [OF mo])
  let ?ks = "filter (\<lambda>key. key \<noteq> ''keys'') (object_keys data)"
  let ?ks' = "filter (\<lambda>key. key \<noteq> ''keys'') (object_keys data')"
  have pk: "mset ?ks' = mset ?ks"
    using perm by (simp add: mset_object_keys)
  have pk': "mset ?ks = mset ?ks'" using pk by simp
  have sub: "set ?ks \<subseteq> {key \<in> set (map fst data). key \<noteq> ''keys''}"
    using mset_eq_setD [OF mset_object_keys [of data]] by auto
  show ?thesis
  proof (cases "map_throwing (make_entry data) ?ks")
    case (Inl e)
    have "\<exists>e'. map_throwing (make_entry data) ?ks' = Inl e'"
    proof (cases "map_throwing (make_entry data) ?ks'")
      case (Inl e')
      then show ?thesis by blast
    next
      case (Inr es')
      from map_throwing_perm [OF pk' Inr] Inl show ?thesis by simp
    qed
    then obtain e' where "map_throwing (make_entry data) ?ks' = Inl e'" by blast
    with Inl show ?thesis
      by (auto simp: select_entries_def mo me split: option.splits sum.splits)
  next
    case (Inr es)
    from map_throwing_perm [OF pk Inr] obtain es' where
      es': "map_throwing (make_entry data) ?ks' = Inr es'" "mset es' = mset es" by blast
    have "inj_on xBig (set es)" by (rule entries_inj [OF dx sub Inr])
    then have "sort_key xBig es' = sort_key xBig es"
      by (rule sort_key_perm [OF es'(2)])
    with Inr es'(1) have "select_entries (JObj data') = select_entries (JObj data)"
      by (simp add: select_entries_def mo me split: option.splits)
    then show ?thesis by simp
  qed
qed

section \<open>Claims about the Lagrange evaluator\<close>

text \<open>
  Claim C1, first part, and the value the evaluator really returns on the points of the
  second part.  For a non-empty list of points with pairwise different x-coordinates that
  lie on a polynomial with integer coefficients \<open>cs\<close> (lowest degree first) of degree less
  than the number of points, \<open>computeConstantC\<close> returns a fraction whose rational value is
  the value of the polynomial at zero; the fraction is that integer over 1.
\<close>

theorem computeConstantC_interpolates:
  assumes "points \<noteq> []" and "distinct (map px points)"
    and "length cs \<le> length points"
    and "map py points = map (\<lambda>p. poly_eval cs (px p)) points"
  shows "(\<exists>n d. computeConstantC points = Inr \<lparr>num = n, den = d\<rparr> \<and> 0 < d \<and>
            Fract n d = of_int (poly_eval cs 0)) \<and>
         computeConstantC points = Inr \<lparr>num = poly_eval cs 0, den = 1\<rparr>"
proof -
  have "computeConstantC points = Inr \<lparr>num = poly_eval cs 0, den = 1\<rparr>"
    using assms by (rule computeConstantC_poly)
  moreover have "Fract (poly_eval cs 0) 1 = of_int (poly_eval cs 0)"
    by (simp add: Fract_of_int_eq)
  ultimately show ?thesis by simp
qed

text \<open>
  The points \<open>(1,3)\<close>, \<open>(2,6)\<close>, \<open>(3,11)\<close> lie on \<open>x\<^sup>2 + 2\<close>, with coefficients \<open>[2, 0, 1]\<close>,
  and the evaluator returns 2 for them.
\<close>

theorem computeConstantC_interpolates_witness:
  "[\<lparr>px = 1, py = 3\<rparr>, \<lparr>px = 2, py = 6\<rparr>, \<lparr>px = 3, py = 11\<rparr>] \<noteq> [] \<and>
   distinct (map px [\<lparr>px = 1, py = 3\<rparr>, \<lparr>px = 2, py = 6\<rparr>, \<lparr>px = 3, py = 11\<rparr>]) \<and>
   length [2, 0, 1 :: int] \<le> length [\<lparr>px = 1, py = 3\<rparr>, \<lparr>px = 2, py = 6\<rparr>, \<lparr>px = 3, py = 11\<rparr>] \<and>
   map py [\<lparr>px = 1, py = 3\<rparr>, \<lparr>px = 2, py = 6\<rparr>, \<lparr>px = 3, py = 11\<rparr>] =
     map (\<lambda>p. poly_eval [2, 0, 1] (px p)) [\<lparr>px = 1, py = 3\<rparr>, \<lparr>px = 2, py = 6\<rparr>, \<lparr>px = 3, py = 11\<rparr>] \<and>
   computeConstantC [\<lparr>px = 1, py = 3\<rparr>, \<lparr>px = 2, py = 6\<rparr>, \<lparr>px = 3, py = 11\<rparr>] =
     Inr \<lparr>num = 2, den = 1\<rparr>"
proof -
  let ?ps = "[\<lparr>px = 1, py = 3\<rparr>, \<lparr>px = 2, py = 6\<rparr>, \<lparr>px = 3, py = 11\<rparr>]"
  have a: "?ps \<noteq> []" by simp
  have b: "distinct (map px ?ps)" by simp
  have c: "length [2, 0, 1 :: int] \<le> length ?ps" by simp
  have d: "map py ?ps = map (\<lambda>p. poly_eval [2, 0, 1] (px p)) ?ps" by simp
  from computeConstantC_interpolates [OF a b c d] a b c d show ?thesis by simp
qed


text \<open>
  Claim C1, second part, is false as stated: for the points \<open>(1,3)\<close>, \<open>(2,6)\<close>, \<open>(3,11)\<close> the
  evaluator returns \<open>2/1\<close>, not the value 1; the points do not lie on \<open>x\<^sup>2 + x + 1\<close>, whose
  value at 2 is 7.
\<close>

theorem known_interpolation_counterexample:
  "computeConstantC [\<lparr>px = 1, py = 3\<rparr>, \<lparr>px = 2, py = 6\<rparr>, \<lparr>px = 3, py = 11\<rparr>] =
     Inr \<lparr>num = 2, den = 1\<rparr> \<and>
   Fract 2 1 \<noteq> (1 :: rat) \<and>
   poly_eval [1, 1, 1] 2 \<noteq> 6"
proof -
  have "computeConstantC [\<lparr>px = 1, py = 3\<rparr>, \<lparr>px = 2, py = 6\<rparr>, \<lparr>px = 3, py = 11\<rparr>] =
      Inr \<lparr>num = 2, den = 1\<rparr>"
    by code_simp
  moreover have "Fract 2 1 \<noteq> (1 :: rat)"
    by (simp add: Fract_of_int_eq)
  ultimately show ?thesis by simp
qed

text \<open>
  Claim C2.  When two of the points handed to \<open>computeConstantC\<close> have the same
  x-coordinate, it throws the division-by-zero exception; so a run whose selected and
  decoded points contain such a pair ends in that exception and prints no result.
\<close>

theorem duplicate_x_division_by_zero:
  assumes "\<not> distinct (map px points)"
  shows "computeConstantC points = Inl DivisionByZero \<and>
         (select_entries doc = Inr entries \<and> form_points entries = Inr points \<longrightarrow>
            solve doc = Inl DivisionByZero \<and> stdout_of (solve doc) = None)"
  using computeConstantC_duplicate [OF assms]
  by (simp add: solve_def stdout_of_def)

theorem duplicate_x_division_by_zero_witness:
  "\<not> distinct (map px [\<lparr>px = 1, py = 3\<rparr>, \<lparr>px = 1, py = 5\<rparr>]) \<and>
   select_entries (JObj [(''keys'', JObj [(''k'', JNum 2)]),
       (''01'', JObj [(''base'', JStr ''10''), (''value'', JStr ''3'')]),
       (''+1'', JObj [(''base'', JStr ''10''), (''value'', JStr ''5'')])]) =
     Inr [\<lparr>keyStr = ''01'', xBig = 1, base = Some (JStr ''10''), val = Some (JStr ''3'')\<rparr>,
          \<lparr>keyStr = ''+1'', xBig = 1, base = Some (JStr ''10''), val = Some (JStr ''5'')\<rparr>] \<and>
   form_points [\<lparr>keyStr = ''01'', xBig = 1, base = Some (JStr ''10''), val = Some (JStr ''3'')\<rparr>,
          \<lparr>keyStr = ''+1'', xBig = 1, base = Some (JStr ''10''), val = Some (JStr ''5'')\<rparr>] =
     Inr [\<lparr>px = 1, py = 3\<rparr>, \<lparr>px = 1, py = 5\<rparr>] \<and>
   computeConstantC [\<lparr>px = 1, py = 3\<rparr>, \<lparr>px = 1, py = 5\<rparr>] = Inl DivisionByZero \<and>
   solve (JObj [(''keys'', JObj [(''k'', JNum 2)]),
       (''01'', JObj [(''base'', JStr ''10''), (''value'', JStr ''3'')]),
       (''+1'', JObj [(''base'', JStr ''10''), (''value'', JStr ''5'')])]) = Inl DivisionByZero"
proof -
  let ?doc = "JObj [(''keys'', JObj [(''k'', JNum 2)]),
       (''01'', JObj [(''base'', JStr ''10''), (''value'', JStr ''3'')]),
       (''+1'', JObj [(''base'', JStr ''10''), (''value'', JStr ''5'')])]"
  let ?es = "[\<lparr>keyStr = ''01'', xBig = 1, base = Some (JStr ''10''), val = Some (JStr ''3'')\<rparr>,
          \<lparr>keyStr = ''+1'', xBig = 1, base = Some (JStr ''10''), val = Some (JStr ''5'')\<rparr>]"
  let ?ps = "[\<lparr>px = 1, py = 3\<rparr>, \<lparr>px = 1, py = 5\<rparr>]"
  have h: "\<not> distinct (map px ?ps)" by simp
  have s: "select_entries ?doc = Inr ?es" by code_simp
  have p: "form_points ?es = Inr ?ps" by code_simp
  from duplicate_x_division_by_zero [OF h, of ?doc ?es] s p h show ?thesis by simp
qed

text \<open>
  Claim C3.  When the x-coordinates are pairwise different, the running total after each
  of the first \<open>n\<close> iterations of the outer loop (for every \<open>n\<close> up to the number of points)
  has a positive denominator and is in lowest terms, and so has the returned fraction.
\<close>

theorem computeConstantC_fraction_invariant:
  assumes "distinct (map px points)"
  shows "(\<forall>n \<le> length points. \<exists>totalNum totalDen.
            outer_loop points [0..<n] (0, 1) = Inr (totalNum, totalDen) \<and>
            0 < totalDen \<and> gcd \<bar>totalNum\<bar> totalDen = 1) \<and>
         (\<exists>f. computeConstantC points = Inr f \<and> 0 < den f \<and> gcd \<bar>num f\<bar> (den f) = 1)"
proof -
  have "\<exists>tn td. outer_loop points [0..<n] (0, 1) = Inr (tn, td) \<and> 0 < td \<and> gcd \<bar>tn\<bar> td = 1"
    if "n \<le> length points" for n
    using outer_loop_distinct [OF assms that] by auto
  moreover have "\<exists>f. computeConstantC points = Inr f \<and> 0 < den f \<and> gcd \<bar>num f\<bar> (den f) = 1"
    using computeConstantC_distinct [OF assms] by auto
  ultimately show ?thesis by blast
qed

theorem computeConstantC_fraction_invariant_witness:
  "distinct (map px [\<lparr>px = 1, py = 1\<rparr>, \<lparr>px = 3, py = 2\<rparr>]) \<and>
   (\<exists>totalNum totalDen.
      outer_loop [\<lparr>px = 1, py = 1\<rparr>, \<lparr>px = 3, py = 2\<rparr>] [0..<1] (0, 1) = Inr (totalNum, totalDen) \<and>
      0 < totalDen \<and> gcd \<bar>totalNum\<bar> totalDen = 1) \<and>
   (\<exists>f. computeConstantC [\<lparr>px = 1, py = 1\<rparr>, \<lparr>px = 3, py = 2\<rparr>] = Inr f \<and>
      0 < den f \<and> gcd \<bar>num f\<bar> (den f) = 1)"
proof -
  let ?ps = "[\<lparr>px = 1, py = 1\<rparr>, \<lparr>px = 3, py = 2\<rparr>]"
  have h: "distinct (map px ?ps)" by simp
  note t = computeConstantC_fraction_invariant [OF h]
  have one: "1 \<le> length ?ps" by simp
  have a: "\<exists>totalNum totalDen. outer_loop ?ps [0..<1] (0, 1) = Inr (totalNum, totalDen) \<and>
      0 < totalDen \<and> gcd \<bar>totalNum\<bar> totalDen = 1"
    by (rule t [THEN conjunct1, rule_format, OF one])
  have b: "\<exists>f. computeConstantC ?ps = Inr f \<and> 0 < den f \<and> gcd \<bar>num f\<bar> (den f) = 1"
    by (rule t [THEN conjunct2])
  from h a b show ?thesis by blast
qed

section \<open>Claims about the printed line\<close>

text \<open>
  Claim C5.  For a fraction with positive denominator the printed line is the numerator
  when the denominator is 1, else the integer quotient when the denominator divides the
  numerator, else numerator, a slash and denominator, all in decimal.  For a fraction that
  \<open>computeConstantC\<close> returned, the fraction is in lowest terms; so when its denominator is
  not 1 it is greater than 1, does not divide the numerator, and the third form is printed.
\<close>

theorem format_result_cases:
  assumes "0 < den f"
  shows "format_result f =
     Inr (if den f = 1 then bigint_toString (num f)
          else if den f dvd num f then bigint_toString (num f div den f)
          else bigint_toString (num f) @ ''/'' @ bigint_toString (den f)) \<and>
    (computeConstantC points = Inr f \<longrightarrow>
       gcd \<bar>num f\<bar> (den f) = 1 \<and>
       (den f \<noteq> 1 \<longrightarrow> 1 < den f \<and> \<not> den f dvd num f \<and>
          format_result f = Inr (bigint_toString (num f) @ ''/'' @ bigint_toString (den f))))"
proof -
  have fmt: "format_result f =
     Inr (if den f = 1 then bigint_toString (num f)
          else if den f dvd num f then bigint_toString (num f div den f)
          else bigint_toString (num f) @ ''/'' @ bigint_toString (den f))"
    by (rule format_result_eq [OF assms])
  have "gcd \<bar>num f\<bar> (den f) = 1 \<and>
       (den f \<noteq> 1 \<longrightarrow> 1 < den f \<and> \<not> den f dvd num f \<and>
          format_result f = Inr (bigint_toString (num f) @ ''/'' @ bigint_toString (den f)))"
    if "computeConstantC points = Inr f"
  proof -
    from computeConstantC_success [OF that] have c: "coprime (num f) (den f)" by simp
    then have "gcd \<bar>num f\<bar> (den f) = 1" by simp
    moreover have "1 < den f \<and> \<not> den f dvd num f" if "den f \<noteq> 1"
      using coprime_not_dvd [OF c assms that] .
    ultimately show ?thesis using fmt by simp
  qed
  with fmt show ?thesis by blast
qed

theorem format_result_cases_witness:
  "0 < den \<lparr>num = 1, den = 2\<rparr> \<and>
   computeConstantC [\<lparr>px = 1, py = 1\<rparr>, \<lparr>px = 3, py = 2\<rparr>] = Inr \<lparr>num = 1, den = 2\<rparr> \<and>
   format_result \<lparr>num = 1, den = 2\<rparr> = Inr ''1/2'' \<and>
   gcd \<bar>num \<lparr>num = 1, den = 2\<rparr>\<bar> (den \<lparr>num = 1, den = 2\<rparr>) = 1 \<and>
   1 < den \<lparr>num = 1, den = 2\<rparr>"
proof -
  have h: "0 < den \<lparr>num = 1, den = 2\<rparr>" by simp
  have c: "computeConstantC [\<lparr>px = 1, py = 1\<rparr>, \<lparr>px = 3, py = 2\<rparr>] = Inr \<lparr>num = 1, den = 2\<rparr>"
    by code_simp
  have s: "bigint_toString 1 @ ''/'' @ bigint_toString 2 = ''1/2''" by code_simp
  from format_result_cases [OF h, of "[\<lparr>px = 1, py = 1\<rparr>, \<lparr>px = 3, py = 2\<rparr>]"] c s
  show ?thesis by simp
qed

section \<open>Claims about the radix decoder\<close>

text \<open>
  Claim C4.  For a radix \<open>b\<close> from 2 to 36 and a non-negative integer \<open>n\<close>, decoding the
  canonical digit string of \<open>n\<close> in radix \<open>b\<close> (\<open>to_radix b n\<close>: most significant digit first,
  digits \<open>0\<close> to \<open>9\<close> then \<open>a\<close> to \<open>z\<close>, no leading zero, \<open>0\<close> for zero) returns \<open>n\<close>, with
  the radix given as a number or as its decimal string.
\<close>

theorem parseBigIntFromBase_roundtrip:
  assumes "2 \<le> b" and "b \<le> 36" and "0 \<le> n"
  shows "parseBigIntFromBase (Some (JStr (to_radix b n))) (Some (JNum b)) = Inr n \<and>
         parseBigIntFromBase (Some (JStr (to_radix b n))) (Some (JStr (to_radix 10 b))) = Inr n"
  using parse_to_radix [OF assms] parse_to_radix_string_base [OF assms] by simp

theorem parseBigIntFromBase_roundtrip_witness:
  "(2::int) \<le> 16 \<and> (16::int) \<le> 36 \<and> (0::int) \<le> 48879 \<and>
   to_radix 16 48879 = ''beef'' \<and> to_radix 10 16 = ''16'' \<and>
   parseBigIntFromBase (Some (JStr ''beef'')) (Some (JNum 16)) = Inr 48879 \<and>
   parseBigIntFromBase (Some (JStr ''beef'')) (Some (JStr ''16'')) = Inr 48879"
proof -
  have a: "(2::int) \<le> 16" and b: "(16::int) \<le> 36" and c: "(0::int) \<le> 48879" by simp_all
  have e: "to_radix 16 48879 = ''beef''" by code_simp
  have d: "to_radix 10 16 = ''16''" by code_simp
  from parseBigIntFromBase_roundtrip [OF a b c] show ?thesis
    unfolding e d by simp
qed


text \<open>
  Claim C6.  For a non-empty string and a radix from 2 to 36, the decoder ends in one of
  its two digit errors exactly when the trimmed, lower-cased string has a character that
  is no digit character or whose digit value is not below the radix, and otherwise it
  returns a value; a string with the character \<open>g\<close> fails under radix 10.
\<close>

theorem parseBigIntFromBase_invalid_digit:
  assumes "s \<noteq> []" and "2 \<le> r" and "r \<le> 36"
  shows "(is_InvalidDigit (parseBigIntFromBase (Some (JStr s)) (Some (JNum r))) \<longleftrightarrow>
            list_ex (bad_char r) (toLowerCase (js_trim s))) \<and>
         (\<not> list_ex (bad_char r) (toLowerCase (js_trim s)) \<longrightarrow>
            (\<exists>v. parseBigIntFromBase (Some (JStr s)) (Some (JNum r)) = Inr v)) \<and>
         (r = 10 \<and> CHR ''g'' \<in> set s \<longrightarrow>
            is_InvalidDigit (parseBigIntFromBase (Some (JStr s)) (Some (JNum r))))"
proof -
  have r: "0 < r" using assms(2) by simp
  have iff: "is_InvalidDigit (parseBigIntFromBase (Some (JStr s)) (Some (JNum r))) \<longleftrightarrow>
            list_ex (bad_char r) (toLowerCase (js_trim s))"
    by (simp only: parse_string_eq [OF assms(1)] digit_loop_invalid_iff strip_zeros_bad [OF r])
  have good: "\<exists>v. parseBigIntFromBase (Some (JStr s)) (Some (JNum r)) = Inr v"
    if "\<not> list_ex (bad_char r) (toLowerCase (js_trim s))"
  proof -
    have "\<not> list_ex (bad_char r) (strip_zeros (toLowerCase (js_trim s)))"
      using that by (simp add: strip_zeros_bad [OF r])
    from digit_loop_good [OF this] show ?thesis
      by (simp only: parse_string_eq [OF assms(1)])
  qed
  have g: "is_InvalidDigit (parseBigIntFromBase (Some (JStr s)) (Some (JNum r)))"
    if "r = 10" "CHR ''g'' \<in> set s"
    using iff g_stays_bad [OF that(2)] that(1) by simp
  from iff good g show ?thesis by blast
qed

theorem parseBigIntFromBase_invalid_digit_witness:
  "''12g'' \<noteq> [] \<and> (2::int) \<le> 10 \<and> (10::int) \<le> 36 \<and> CHR ''g'' \<in> set ''12g'' \<and>
   list_ex (bad_char 10) (toLowerCase (js_trim ''12g'')) \<and>
   is_InvalidDigit (parseBigIntFromBase (Some (JStr ''12g'')) (Some (JNum 10))) \<and>
   ''fF'' \<noteq> [] \<and> (2::int) \<le> 16 \<and> (16::int) \<le> 36 \<and>
   \<not> list_ex (bad_char 16) (toLowerCase (js_trim ''fF'')) \<and>
   (\<exists>v. parseBigIntFromBase (Some (JStr ''fF'')) (Some (JNum 16)) = Inr v)"
proof -
  have a: "''12g'' \<noteq> []" "(2::int) \<le> 10" "(10::int) \<le> 36" by simp_all
  have b: "''fF'' \<noteq> []" "(2::int) \<le> 16" "(16::int) \<le> 36" by simp_all
  have g: "CHR ''g'' \<in> set ''12g''" by simp
  have bad: "list_ex (bad_char 10) (toLowerCase (js_trim ''12g''))" by code_simp
  have ok: "\<not> list_ex (bad_char 16) (toLowerCase (js_trim ''fF''))" by code_simp
  note t1 = parseBigIntFromBase_invalid_digit [OF a]
  note t2 = parseBigIntFromBase_invalid_digit [OF b]
  have f1: "is_InvalidDigit (parseBigIntFromBase (Some (JStr ''12g'')) (Some (JNum 10)))"
    using t1 [THEN conjunct1] bad by simp
  have f2: "\<exists>v. parseBigIntFromBase (Some (JStr ''fF'')) (Some (JNum 16)) = Inr v"
    using t2 [THEN conjunct2, THEN conjunct1] ok by simp
  from a b g bad ok f1 f2 show ?thesis by blast
qed

text \<open>
  Claim C10.  The decoder never compares the radix with 2 or 36: with radix 37 the
  one-character string \<open>z\<close>, whose digit value 35 is below the radix, is decoded to 35, and
  the string \<open>10\<close> to the positional value 37.
\<close>


theorem parseBigIntFromBase_radix_unchecked:
  "parseBigIntFromBase (Some (JStr ''z'')) (Some (JNum 37)) = Inr 35 \<and>
   parseBigIntFromBase (Some (JStr ''10'')) (Some (JNum 37)) = Inr 37"
  by code_simp

section \<open>Claims about the main script\<close>

text \<open>
  Claim C7, amended.  For a document whose property names are pairwise different and whose
  names other than \<open>keys\<close> convert to pairwise different x-coordinates, every reordering
  of its properties leaves the printed line unchanged (a run that throws prints none).
\<close>

theorem order_independence:
  assumes "distinct (map fst data)" and "mset data' = mset data"
    and "distinct (x_values data)"
  shows "stdout_of (solve (JObj data')) = stdout_of (solve (JObj data))"
  using select_entries_perm [OF assms]
  by (auto simp: solve_def stdout_of_def)

text \<open>
  A document with the entries for \<open>x = 3\<close> and \<open>x = -1\<close>, taken from the line \<open>3x + 4\<close>, and
  one reordering of it; both print \<open>4\<close>.
\<close>

theorem order_independence_witness:
  "distinct (map fst [(''keys'', JObj [(''k'', JNum 2)]),
       (''3'', JObj [(''base'', JStr ''10''), (''value'', JStr ''13'')]),
       (''-1'', JObj [(''base'', JStr ''2''), (''value'', JStr ''1'')])]) \<and>
   mset [(''-1'', JObj [(''base'', JStr ''2''), (''value'', JStr ''1'')]),
       (''3'', JObj [(''base'', JStr ''10''), (''value'', JStr ''13'')]),
       (''keys'', JObj [(''k'', JNum 2)])] =
   mset [(''keys'', JObj [(''k'', JNum 2)]),
       (''3'', JObj [(''base'', JStr ''10''), (''value'', JStr ''13'')]),
       (''-1'', JObj [(''base'', JStr ''2''), (''value'', JStr ''1'')])] \<and>
   x_values [(''keys'', JObj [(''k'', JNum 2)]),
       (''3'', JObj [(''base'', JStr ''10''), (''value'', JStr ''13'')]),
       (''-1'', JObj [(''base'', JStr ''2''), (''value'', JStr ''1'')])] = [3, - 1] \<and>
   solve (JObj [(''keys'', JObj [(''k'', JNum 2)]),
       (''3'', JObj [(''base'', JStr ''10''), (''value'', JStr ''13'')]),
       (''-1'', JObj [(''base'', JStr ''2''), (''value'', JStr ''1'')])]) = Inr ''4'' \<and>
   stdout_of (solve (JObj [(''-1'', JObj [(''base'', JStr ''2''), (''value'', JStr ''1'')]),
       (''3'', JObj [(''base'', JStr ''10''), (''value'', JStr ''13'')]),
       (''keys'', JObj [(''k'', JNum 2)])])) = Some ''4''"
proof -
  let ?d = "[(''keys'', JObj [(''k'', JNum 2)]),
       (''3'', JObj [(''base'', JStr ''10''), (''value'', JStr ''13'')]),
       (''-1'', JObj [(''base'', JStr ''2''), (''value'', JStr ''1'')])]"
  let ?d' = "[(''-1'', JObj [(''base'', JStr ''2''), (''value'', JStr ''1'')]),
       (''3'', JObj [(''base'', JStr ''10''), (''value'', JStr ''13'')]),
       (''keys'', JObj [(''k'', JNum 2)])]"
  have a: "distinct (map fst ?d)" by simp
  have b: "mset ?d' = mset ?d" by simp
  have x: "x_values ?d = [3, - 1]" by code_simp
  have c: "distinct (x_values ?d)" unfolding x by simp
  have s: "solve (JObj ?d) = Inr ''4''" by code_simp
  have "stdout_of (solve (JObj ?d')) = Some ''4''"
    using order_independence [OF a b c] s by (simp add: stdout_of_def)
  with a b x s show ?thesis by blast
qed

text \<open>
  Claim C7 is false as stated.  The names \<open>01\<close> and \<open>+1\<close> both convert to \<open>x = 1\<close>; the sort
  keeps entries with equal x in the order of the document, and with \<open>k = 1\<close> the first of
  them alone is used, so exchanging the two entries changes the printed line from \<open>5\<close>
  to \<open>7\<close>.
\<close>

theorem order_dependence_counterexample:
  "distinct (map fst [(''keys'', JObj [(''k'', JNum 1)]),
       (''01'', JObj [(''base'', JStr ''10''), (''value'', JStr ''5'')]),
       (''+1'', JObj [(''base'', JStr ''10''), (''value'', JStr ''7'')])]) \<and>
   mset [(''keys'', JObj [(''k'', JNum 1)]),
       (''+1'', JObj [(''base'', JStr ''10''), (''value'', JStr ''7'')]),
       (''01'', JObj [(''base'', JStr ''10''), (''value'', JStr ''5'')])] =
   mset [(''keys'', JObj [(''k'', JNum 1)]),
       (''01'', JObj [(''base'', JStr ''10''), (''value'', JStr ''5'')]),
       (''+1'', JObj [(''base'', JStr ''10''), (''value'', JStr ''7'')])] \<and>
   solve (JObj [(''keys'', JObj [(''k'', JNum 1)]),
       (''01'', JObj [(''base'', JStr ''10''), (''value'', JStr ''5'')]),
       (''+1'', JObj [(''base'', JStr ''10''), (''value'', JStr ''7'')])]) = Inr ''5'' \<and>
   solve (JObj [(''keys'', JObj [(''k'', JNum 1)]),
       (''+1'', JObj [(''base'', JStr ''10''), (''value'', JStr ''7'')]),
       (''01'', JObj [(''base'', JStr ''10''), (''value'', JStr ''5'')])]) = Inr ''7''"
proof -
  let ?d = "[(''keys'', JObj [(''k'', JNum 1)]),
       (''01'', JObj [(''base'', JStr ''10''), (''value'', JStr ''5'')]),
       (''+1'', JObj [(''base'', JStr ''10''), (''value'', JStr ''7'')])]"
  let ?d' = "[(''keys'', JObj [(''k'', JNum 1)]),
       (''+1'', JObj [(''base'', JStr ''10''), (''value'', JStr ''7'')]),
       (''01'', JObj [(''base'', JStr ''10''), (''value'', JStr ''5'')])]"
  have a: "distinct (map fst ?d)" by simp
  have b: "mset ?d' = mset ?d" by simp
  have s: "solve (JObj ?d) = Inr ''5''" by code_simp
  have s': "solve (JObj ?d') = Inr ''7''" by code_simp
  from a b s s' show ?thesis by blast
qed

text \<open>
  Claim C8, amended.  For a document whose \<open>keys.k\<close> is numerically zero the script does
  not fail on that account: when every name other than \<open>keys\<close> converts to an x-coordinate
  and no entry is \<open>null\<close>, no entry is selected and the line \<open>0\<close> is printed; otherwise the
  exception of the first such name or entry ends the run.
\<close>

theorem k_zero_prints_zero:
  assumes "map_of data ''keys'' = Some keys" and "get_field keys ''k'' = Some kv"
    and "js_Number (Some kv) = Fin 0"
  shows "(map_throwing (make_entry data) (filter (\<lambda>key. key \<noteq> ''keys'') (object_keys data)) = Inr entries
            \<longrightarrow> solve (JObj data) = Inr ''0'') \<and>
         (map_throwing (make_entry data) (filter (\<lambda>key. key \<noteq> ''keys'') (object_keys data)) = Inl e
            \<longrightarrow> solve (JObj data) = Inl e)"
  using select_entries_k_zero [OF assms]
  by (auto simp: solve_no_entries) (simp add: solve_def)

theorem k_zero_prints_zero_witness:
  "map_of [(''keys'', JObj [(''k'', JNum 0)]),
           (''1'', JObj [(''base'', JStr ''10''), (''value'', JStr ''5'')])] ''keys'' =
     Some (JObj [(''k'', JNum 0)]) \<and>
   get_field (JObj [(''k'', JNum 0)]) ''k'' = Some (JNum 0) \<and>
   js_Number (Some (JNum 0)) = Fin 0 \<and>
   map_throwing (make_entry [(''keys'', JObj [(''k'', JNum 0)]),
           (''1'', JObj [(''base'', JStr ''10''), (''value'', JStr ''5'')])])
     (filter (\<lambda>key. key \<noteq> ''keys'') (object_keys [(''keys'', JObj [(''k'', JNum 0)]),
           (''1'', JObj [(''base'', JStr ''10''), (''value'', JStr ''5'')])])) =
     Inr [\<lparr>keyStr = ''1'', xBig = 1, base = Some (JStr ''10''), val = Some (JStr ''5'')\<rparr>] \<and>
   solve (JObj [(''keys'', JObj [(''k'', JNum 0)]),
           (''1'', JObj [(''base'', JStr ''10''), (''value'', JStr ''5'')])]) = Inr ''0'' \<and>
   map_of [(''keys'', JObj [(''k'', JNum 0)]), (''x'', JNull)] ''keys'' =
     Some (JObj [(''k'', JNum 0)]) \<and>
   map_throwing (make_entry [(''keys'', JObj [(''k'', JNum 0)]), (''x'', JNull)])
     (filter (\<lambda>key. key \<noteq> ''keys'') (object_keys [(''keys'', JObj [(''k'', JNum 0)]), (''x'', JNull)])) =
     Inl BigIntSyntaxError \<and>
   solve (JObj [(''keys'', JObj [(''k'', JNum 0)]), (''x'', JNull)]) = Inl BigIntSyntaxError"
proof -
  let ?data = "[(''keys'', JObj [(''k'', JNum 0)]),
           (''1'', JObj [(''base'', JStr ''10''), (''value'', JStr ''5'')])]"
  let ?bad = "[(''keys'', JObj [(''k'', JNum 0)]), (''x'', JNull)]"
  have a: "map_of ?data ''keys'' = Some (JObj [(''k'', JNum 0)])" by simp
  have a': "map_of ?bad ''keys'' = Some (JObj [(''k'', JNum 0)])" by simp
  have b: "get_field (JObj [(''k'', JNum 0)]) ''k'' = Some (JNum 0)" by (simp add: get_field_def)
  have c: "js_Number (Some (JNum 0)) = Fin 0" by (simp add: js_Number_def)
  have m: "map_throwing (make_entry ?data) (filter (\<lambda>key. key \<noteq> ''keys'') (object_keys ?data)) =
     Inr [\<lparr>keyStr = ''1'', xBig = 1, base = Some (JStr ''10''), val = Some (JStr ''5'')\<rparr>]"
    by code_simp
  have m': "map_throwing (make_entry ?bad) (filter (\<lambda>key. key \<noteq> ''keys'') (object_keys ?bad)) =
     Inl BigIntSyntaxError"
    by code_simp
  have r: "solve (JObj ?data) = Inr ''0''"
    using k_zero_prints_zero [OF a b c, THEN conjunct1] m by blast
  have r': "solve (JObj ?bad) = Inl BigIntSyntaxError"
    using k_zero_prints_zero [OF a' b c, THEN conjunct2] m' by blast
  from a b c m r a' m' r' show ?thesis by blast
qed

text \<open>
  Claim C8 is false as stated: with \<open>keys.k = 0\<close> and one well-formed entry the script
  prints \<open>0\<close>.
\<close>

theorem k_zero_counterexample:
  "get_field (JObj [(''k'', JNum 0)]) ''k'' = Some (JNum 0) \<and>
   solve (JObj [(''keys'', JObj [(''k'', JNum 0)]),
           (''1'', JObj [(''base'', JStr ''10''), (''value'', JStr ''5'')])]) = Inr ''0''"
  by code_simp

text \<open>
  Claim C9, amended.  A document without \<open>keys\<close>, or whose \<open>keys\<close> has no \<open>k\<close>, ends in the
  explicit error of line 103.  An entry without \<open>value\<close> is not an error: the decoder
  returns zero for it whatever its base.  For a present, truthy \<open>value\<close> and a missing
  \<open>base\<close> the decoder throws the range error of \<open>BigInt(NaN)\<close>, and a run that selects
  such an entry ends in an exception.
\<close>

theorem missing_fields:
  "(map_of data ''keys'' = None \<or>
      (\<exists>keys. map_of data ''keys'' = Some keys \<and> get_field keys ''k'' = None)
        \<longrightarrow> solve (JObj data) = Inl MissingKeys) \<and>
   parseBigIntFromBase None b = Inr 0 \<and>
   (truthy v \<longrightarrow> parseBigIntFromBase (Some v) None = Inl BigIntRangeError) \<and>
   (select_entries doc = Inr es \<and> e \<in> set es \<and> val e = Some v \<and> truthy v \<and> base e = None
        \<longrightarrow> (\<exists>err. solve doc = Inl err))"
proof -
  have "solve (JObj data) = Inl MissingKeys"
    if "map_of data ''keys'' = None \<or>
      (\<exists>keys. map_of data ''keys'' = Some keys \<and> get_field keys ''k'' = None)"
    using select_entries_missing_keys [OF that] by (simp add: solve_def)
  moreover have "\<exists>err. solve doc = Inl err"
    if "select_entries doc = Inr es \<and> e \<in> set es \<and> val e = Some v \<and> truthy v \<and> base e = None"
    using that solve_missing_base [of doc es e v] by blast
  ultimately show ?thesis
    using parse_missing_value parse_missing_base by blast
qed

theorem missing_fields_witness:
  "map_of [(''1'', JObj [(''base'', JStr ''10''), (''value'', JStr ''5'')])] ''keys'' = None \<and>
   solve (JObj [(''1'', JObj [(''base'', JStr ''10''), (''value'', JStr ''5'')])]) = Inl MissingKeys \<and>
   map_of [(''keys'', JObj [(''n'', JNum 1)])] ''keys'' = Some (JObj [(''n'', JNum 1)]) \<and>
   get_field (JObj [(''n'', JNum 1)]) ''k'' = None \<and>
   solve (JObj [(''keys'', JObj [(''n'', JNum 1)])]) = Inl MissingKeys \<and>
   truthy (JStr ''5'') \<and>
   parseBigIntFromBase (Some (JStr ''5'')) None = Inl BigIntRangeError \<and>
   select_entries (JObj [(''keys'', JObj [(''k'', JNum 1)]), (''1'', JObj [(''value'', JStr ''5'')])]) =
     Inr [\<lparr>keyStr = ''1'', xBig = 1, base = None, val = Some (JStr ''5'')\<rparr>] \<and>
   (\<exists>err. solve (JObj [(''keys'', JObj [(''k'', JNum 1)]), (''1'', JObj [(''value'', JStr ''5'')])]) = Inl err)"
proof -
  let ?d1 = "[(''1'', JObj [(''base'', JStr ''10''), (''value'', JStr ''5'')])]"
  let ?d2 = "[(''keys'', JObj [(''n'', JNum 1)])]"
  let ?d3 = "JObj [(''keys'', JObj [(''k'', JNum 1)]), (''1'', JObj [(''value'', JStr ''5'')])]"
  let ?e = "\<lparr>keyStr = ''1'', xBig = 1, base = None, val = Some (JStr ''5'')\<rparr>"
  have a1: "map_of ?d1 ''keys'' = None" by simp
  have a2: "map_of ?d2 ''keys'' = Some (JObj [(''n'', JNum 1)])" by simp
  have a3: "get_field (JObj [(''n'', JNum 1)]) ''k'' = None" by (simp add: get_field_def)
  have t: "truthy (JStr ''5'')" by (simp add: truthy_def)
  have s: "select_entries ?d3 = Inr [?e]" by code_simp
  have r1: "solve (JObj ?d1) = Inl MissingKeys"
    using missing_fields [of ?d1, THEN conjunct1] a1 by blast
  have r2: "solve (JObj ?d2) = Inl MissingKeys"
    using missing_fields [of ?d2, THEN conjunct1] a2 a3 by blast
  have r3: "parseBigIntFromBase (Some (JStr ''5'')) None = Inl BigIntRangeError"
    using missing_fields [where v = "JStr ''5''", THEN conjunct2, THEN conjunct2, THEN conjunct1] t by blast
  have r4: "\<exists>err. solve ?d3 = Inl err"
    using missing_fields [where doc = ?d3 and es = "[?e]" and e = ?e and v = "JStr ''5''",
        THEN conjunct2, THEN conjunct2, THEN conjunct2] s t by simp
  from a1 a2 a3 t s r1 r2 r3 r4 show ?thesis by blast
qed

text \<open>
  Claim C9 is false as stated: the entry of this document has no \<open>value\<close> field, and the
  script prints \<open>0\<close>.
\<close>

theorem missing_value_counterexample:
  "get_field (JObj [(''base'', JStr ''10'')]) ''value'' = None \<and>
   solve (JObj [(''keys'', JObj [(''k'', JNum 1)]), (''1'', JObj [(''base'', JStr ''10'')])]) = Inr ''0''"
  by code_simp

end
